theory Spec2Isabelle
  imports Main "HOL-Library.AList" "HOL-Library.Char_ord" "HOL-Library.List_Lexorder"
    "HOL-Library.Product_Lexorder"
begin

section \<open>The route graph\<close>

text \<open>
  A route stored in the graph is the dictionary with the keys \<open>dest\<close>, \<open>aircraft\<close> and
  \<open>distance\<close> that \<open>add_route\<close> appends. Distances are Python integers, hence \<open>int\<close>.
\<close>

record edge =
  dest :: string
  aircraft :: string
  distance :: int

text \<open>
  \<open>RouteGraph.graph\<close> is a \<open>defaultdict(list)\<close>. A Python dictionary keeps its keys in
  insertion order, so it is an association list with distinct keys; a new key goes to the end.
\<close>

type_synonym RouteGraph = "(string \<times> edge list) list"

definition init :: RouteGraph where
  "init = []"

text \<open>
  \<open>graph.graph[k]\<close> on a \<open>defaultdict(list)\<close>: a present key gives its list, a missing key
  is first inserted with the empty list, which is then returned. The dictionary is returned too,
  because the lookup may have changed it.
\<close>

definition getitem :: "RouteGraph \<Rightarrow> string \<Rightarrow> edge list \<times> RouteGraph" where
  "getitem g k = (case map_of g k of Some es \<Rightarrow> (es, g) | None \<Rightarrow> ([], g @ [(k, [])]))"

definition add_route :: "RouteGraph \<Rightarrow> string \<Rightarrow> string \<Rightarrow> string \<Rightarrow> int \<Rightarrow> RouteGraph" where
  "add_route g dep dst ac d =
     (case getitem g dep of
        (es, g') \<Rightarrow> AList.update dep (es @ [\<lparr>dest = dst, aircraft = ac, distance = d\<rparr>]) g')"

text \<open>
  The loop of \<open>load_routes\<close> that fills the graph, one \<open>add_route\<close> per record.
  A route record is the dictionary that \<open>parse_routes_from_string\<close> builds.
\<close>

record route =
  Departure :: string
  Destination :: string
  Aircraft :: string
  Distance :: int

fun add_routes :: "RouteGraph \<Rightarrow> route list \<Rightarrow> RouteGraph" where
  "add_routes g [] = g"
| "add_routes g (r # rs) =
     add_routes (add_route g (Departure r) (Destination r) (Aircraft r) (Distance r)) rs"

section \<open>Removing duplicate and zero-distance records\<close>

type_synonym route_key = "string \<times> string \<times> string \<times> int"

definition key_of :: "route \<Rightarrow> route_key" where
  "key_of item = (Departure item, Destination item, Aircraft item, Distance item)"

text \<open>The \<open>for item in items\<close> loop of \<open>unique_list\<close>, with its two local variables.\<close>

fun unique_loop :: "route list \<Rightarrow> route_key set \<Rightarrow> route list \<Rightarrow> route list" where
  "unique_loop [] seen result = result"
| "unique_loop (item # items) seen result =
     (if key_of item \<notin> seen then
        (if Distance item = 0 then unique_loop items (insert (key_of item) seen) result
         else unique_loop items (insert (key_of item) seen) (result @ [item]))
      else unique_loop items seen result)"

definition unique_list :: "route list \<Rightarrow> route list" where
  "unique_list items = unique_loop items {} []"

section \<open>Fewest legs: breadth-first search\<close>

text \<open>The \<open>for edge in graph.graph[airport]\<close> loop of \<open>fewest_legs\<close>, over the list already looked up.\<close>

fun enqueue_edges ::
  "string \<Rightarrow> string list \<Rightarrow> edge list \<Rightarrow> (string \<times> string list) list \<Rightarrow> (string \<times> string list) list"
where
  "enqueue_edges ac path [] queue = queue"
| "enqueue_edges ac path (e # es) queue =
     (if aircraft e \<noteq> ac then enqueue_edges ac path es queue
      else enqueue_edges ac path es (queue @ [(dest e, path @ [dest e])]))"

text \<open>
  The \<open>while queue\<close> loop. The outer \<open>option\<close> is \<open>None\<close> when the loop runs forever; the
  inner one is Python's \<open>None\<close> (no route). The graph is threaded through, since every
  lookup may insert a key.
\<close>

partial_function (option) fewest_legs_loop ::
  "string \<Rightarrow> string \<Rightarrow> RouteGraph \<Rightarrow> (string \<times> string list) list \<Rightarrow> string set
     \<Rightarrow> (string list option \<times> RouteGraph) option"
where
  "fewest_legs_loop end ac g queue visited =
     (case queue of
        [] \<Rightarrow> Some (None, g)
      | (airport, path) # queue' \<Rightarrow>
          if airport = end then Some (Some path, g)
          else if airport \<in> visited then fewest_legs_loop end ac g queue' visited
          else (case getitem g airport of
                  (edges, g') \<Rightarrow>
                    fewest_legs_loop end ac g' (enqueue_edges ac path edges queue')
                      (insert airport visited)))"

definition fewest_legs ::
  "RouteGraph \<Rightarrow> string \<Rightarrow> string \<Rightarrow> string \<Rightarrow> (string list option \<times> RouteGraph) option"
where
  "fewest_legs graph start end ac = fewest_legs_loop end ac graph [(start, [start])] {}"

section \<open>Least distance: Dijkstra's algorithm with a hop tie-break\<close>

text \<open>
  A heap entry is the tuple \<open>(total_distance, number_of_hops, airport, path)\<close>. Python compares
  tuples lexicographically, strings and lists likewise, which is the order that
  the product and list instances give to this type.
\<close>

type_synonym entry = "int \<times> nat \<times> string \<times> string list"

text \<open>
  \<open>heapq\<close> is the standard library's binary heap; it is modelled by its contract. The heap is
  the list of its items, \<open>heappush\<close> adds an item, and \<open>heappop\<close> removes and returns the
  smallest item. The order on entries is total and equal entries cannot be told apart, so the
  result of a pop does not depend on how the heap arranges its items.
\<close>

definition heappush :: "entry list \<Rightarrow> entry \<Rightarrow> entry list" where
  "heappush pq x = pq @ [x]"

definition heappop :: "entry list \<Rightarrow> entry \<times> entry list" where
  "heappop pq = (let m = Min (set pq) in (m, remove1 m pq))"

text \<open>The \<open>for edge in graph.graph[airport]\<close> loop of \<open>least_distance\<close>.\<close>

fun push_edges ::
  "string \<Rightarrow> int \<Rightarrow> nat \<Rightarrow> string list \<Rightarrow> edge list \<Rightarrow> entry list \<Rightarrow> entry list"
where
  "push_edges ac dist hops path [] pq = pq"
| "push_edges ac dist hops path (e # es) pq =
     (if aircraft e \<noteq> ac then push_edges ac dist hops path es pq
      else push_edges ac dist hops path es
             (heappush pq (dist + distance e, hops + 1, dest e, path @ [dest e])))"

text \<open>The test that skips a popped entry: a route at least as good was recorded before.\<close>

definition skip_entry :: "(string \<rightharpoonup> int \<times> nat) \<Rightarrow> string \<Rightarrow> int \<Rightarrow> nat \<Rightarrow> bool" where
  "skip_entry visited airport dist hops =
     (case visited airport of
        None \<Rightarrow> False
      | Some (best_dist, best_hops) \<Rightarrow>
          dist > best_dist \<or> (dist = best_dist \<and> hops \<ge> best_hops))"

partial_function (option) least_distance_loop ::
  "string \<Rightarrow> string \<Rightarrow> RouteGraph \<Rightarrow> entry list \<Rightarrow> (string \<rightharpoonup> int \<times> nat)
     \<Rightarrow> ((int \<times> string list) option \<times> RouteGraph) option"
where
  "least_distance_loop end ac g pq visited =
     (if pq = [] then Some (None, g)
      else (case heappop pq of
              ((dist, hops, airport, path), pq') \<Rightarrow>
                if airport = end then Some (Some (dist, path), g)
                else if skip_entry visited airport dist hops
                  then least_distance_loop end ac g pq' visited
                else (case getitem g airport of
                        (edges, g') \<Rightarrow>
                          least_distance_loop end ac g'
                            (push_edges ac dist hops path edges pq')
                            (visited(airport \<mapsto> (dist, hops))))))"

definition least_distance ::
  "RouteGraph \<Rightarrow> string \<Rightarrow> string \<Rightarrow> string
     \<Rightarrow> ((int \<times> string list) option \<times> RouteGraph) option"
where
  "least_distance graph start end ac =
     least_distance_loop end ac graph [(0, 0, start, [start])] Map.empty"

section \<open>Routes through the graph\<close>

text \<open>What a lookup of \<open>x\<close> in the dictionary yields: the stored list, or the empty default.\<close>

definition adj :: "RouteGraph \<Rightarrow> string \<Rightarrow> edge list" where
  "adj g x = (case map_of g x of None \<Rightarrow> [] | Some es \<Rightarrow> es)"

text \<open>The edge that \<open>add_route\<close> stores for a record.\<close>

definition route_edge :: "route \<Rightarrow> edge" where
  "route_edge r = \<lparr>dest = Destination r, aircraft = Aircraft r, distance = Distance r\<rparr>"

text \<open>
  \<open>walk g ac x es y\<close>: the edges \<open>es\<close>, all flown by aircraft \<open>ac\<close>, lead from \<open>x\<close> to \<open>y\<close>
  in \<open>g\<close>, each one stored under the airport where the previous one arrives.
\<close>

fun walk :: "RouteGraph \<Rightarrow> string \<Rightarrow> string \<Rightarrow> edge list \<Rightarrow> string \<Rightarrow> bool" where
  "walk g ac x [] y = (x = y)"
| "walk g ac x (e # es) y = (e \<in> set (adj g x) \<and> aircraft e = ac \<and> walk g ac (dest e) es y)"

text \<open>The airports along a walk, and its total distance.\<close>

definition airports :: "string \<Rightarrow> edge list \<Rightarrow> string list" where
  "airports x es = x # map dest es"

definition total_distance :: "edge list \<Rightarrow> int" where
  "total_distance es = sum_list (map distance es)"

text \<open>
  Index \<open>i\<close> of the input of \<open>unique_list\<close> is kept: its distance is not zero, its key was
  not seen before the loop, and the record does not occur at an earlier index.
\<close>

definition kept :: "route_key set \<Rightarrow> route list \<Rightarrow> nat \<Rightarrow> bool" where
  "kept seen items i \<longleftrightarrow>
     Distance (items ! i) \<noteq> 0 \<and> key_of (items ! i) \<notin> seen \<and> items ! i \<notin> set (take i items)"

section \<open>Invariants of the breadth-first search\<close>

text \<open>Every airport a walk from \<open>s\<close> can reach: \<open>s\<close> and the destinations stored in the graph.\<close>

definition nodes :: "RouteGraph \<Rightarrow> string \<Rightarrow> string set" where
  "nodes g s = insert s (dest ` set (concat (map snd g)))"

text \<open>Every queued path is the airport list of a walk from the start to its airport.\<close>

definition bfs_paths ::
  "RouteGraph \<Rightarrow> string \<Rightarrow> string \<Rightarrow> (string \<times> string list) list \<Rightarrow> bool" where
  "bfs_paths g ac s queue \<longleftrightarrow>
     (\<forall>a \<in> set queue. \<exists>es. walk g ac s es (fst a) \<and> snd a = airports s es)"

text \<open>The queue is ordered by path length, and its lengths differ by at most one.\<close>

definition bfs_levels :: "(string \<times> string list) list \<Rightarrow> bool" where
  "bfs_levels queue \<longleftrightarrow>
     sorted (map (length \<circ> snd) queue) \<and>
     (\<forall>a \<in> set queue. \<forall>b \<in> set queue. length (snd b) \<le> length (snd a) + 1)"

text \<open>
  Airport \<open>x\<close> is covered at length \<open>k\<close>: it waits in the queue with a path of at most
  \<open>k\<close> airports, or it was expanded with such a path (\<open>lv\<close> records the length of the path
  an airport was expanded with).
\<close>

definition bfs_covered ::
  "(string \<times> string list) list \<Rightarrow> string set \<Rightarrow> (string \<Rightarrow> nat) \<Rightarrow> string \<Rightarrow> nat \<Rightarrow> bool"
where
  "bfs_covered queue visited lv x k \<longleftrightarrow>
     (\<exists>p. (x, p) \<in> set queue \<and> length p \<le> k) \<or> (x \<in> visited \<and> lv x \<le> k)"

text \<open>
  An expanded airport was expanded no later than anything still queued, and each of its matching
  edges leads to an airport covered one step further.
\<close>

definition bfs_closed ::
  "RouteGraph \<Rightarrow> string \<Rightarrow> (string \<times> string list) list \<Rightarrow> string set \<Rightarrow> (string \<Rightarrow> nat)
     \<Rightarrow> bool"
where
  "bfs_closed g ac queue visited lv \<longleftrightarrow>
     (\<forall>v \<in> visited.
        (\<forall>a \<in> set queue. lv v \<le> length (snd a)) \<and>
        (\<forall>ed \<in> set (adj g v). aircraft ed = ac \<longrightarrow>
           bfs_covered queue visited lv (dest ed) (lv v + 1)))"

definition bfs_inv ::
  "RouteGraph \<Rightarrow> string \<Rightarrow> string \<Rightarrow> string \<Rightarrow> (string \<times> string list) list \<Rightarrow> string set
     \<Rightarrow> (string \<Rightarrow> nat) \<Rightarrow> bool"
where
  "bfs_inv g ac s e queue visited lv \<longleftrightarrow>
     bfs_paths g ac s queue \<and> bfs_levels queue \<and> e \<notin> visited \<and>
     bfs_closed g ac queue visited lv \<and> bfs_covered queue visited lv s 1"

text \<open>
  What a result of \<open>fewest_legs\<close> means: no route, or the airports of a walk from \<open>s\<close> to
  \<open>e\<close> that no other such walk beats in number of legs.
\<close>

definition bfs_post ::
  "RouteGraph \<Rightarrow> string \<Rightarrow> string \<Rightarrow> string \<Rightarrow> string list option \<Rightarrow> bool" where
  "bfs_post g ac s e r \<longleftrightarrow>
     (case r of
        None \<Rightarrow> \<forall>es. \<not> walk g ac s es e
      | Some p \<Rightarrow> \<exists>es. walk g ac s es e \<and> p = airports s es \<and>
                   (\<forall>ws. walk g ac s ws e \<longrightarrow> length es \<le> length ws))"

section \<open>Invariants of the least-distance search\<close>

text \<open>The parts of a heap entry: its priority (distance, hops), its airport and its path.\<close>

definition entry_key :: "entry \<Rightarrow> int \<times> nat" where
  "entry_key a = (fst a, fst (snd a))"

definition entry_airport :: "entry \<Rightarrow> string" where
  "entry_airport a = fst (snd (snd a))"

definition entry_path :: "entry \<Rightarrow> string list" where
  "entry_path a = snd (snd (snd a))"

text \<open>No stored edge of the requested aircraft has a negative distance.\<close>

definition nonneg_distances :: "RouteGraph \<Rightarrow> string \<Rightarrow> bool" where
  "nonneg_distances g ac \<longleftrightarrow>
     (\<forall>ed \<in> set (concat (map snd g)). aircraft ed = ac \<longrightarrow> 0 \<le> distance ed)"

text \<open>All stored edges have a strictly positive distance.\<close>

definition positive_distances :: "RouteGraph \<Rightarrow> bool" where
  "positive_distances g \<longleftrightarrow> (\<forall>ed \<in> set (concat (map snd g)). 0 < distance ed)"

text \<open>Every heap entry describes a walk from the start: its path, distance and hop count.\<close>

definition dj_paths :: "RouteGraph \<Rightarrow> string \<Rightarrow> string \<Rightarrow> entry list \<Rightarrow> bool" where
  "dj_paths g ac s pq \<longleftrightarrow>
     (\<forall>a \<in> set pq. \<exists>es. walk g ac s es (entry_airport a) \<and> entry_path a = airports s es \<and>
        entry_key a = (total_distance es, length es))"

text \<open>
  Airport \<open>x\<close> is covered at priority \<open>K\<close>: it waits in the heap with a priority of at most
  \<open>K\<close>, or such a priority is recorded for it in \<open>visited\<close>.
\<close>

definition dj_covered ::
  "entry list \<Rightarrow> (string \<rightharpoonup> int \<times> nat) \<Rightarrow> string \<Rightarrow> int \<times> nat \<Rightarrow> bool" where
  "dj_covered pq visited x K \<longleftrightarrow>
     (\<exists>a \<in> set pq. entry_airport a = x \<and> entry_key a \<le> K) \<or>
     (\<exists>L. visited x = Some L \<and> L \<le> K)"

text \<open>
  A recorded priority is at most every priority in the heap, and every matching edge of a
  recorded airport leads to an airport covered at the priority extended by that edge.
\<close>

definition dj_closed ::
  "RouteGraph \<Rightarrow> string \<Rightarrow> entry list \<Rightarrow> (string \<rightharpoonup> int \<times> nat) \<Rightarrow> bool" where
  "dj_closed g ac pq visited \<longleftrightarrow>
     (\<forall>v L. visited v = Some L \<longrightarrow>
        (\<forall>a \<in> set pq. L \<le> entry_key a) \<and>
        (\<forall>ed \<in> set (adj g v). aircraft ed = ac \<longrightarrow>
           dj_covered pq visited (dest ed) (fst L + distance ed, snd L + 1)))"

definition dj_inv ::
  "RouteGraph \<Rightarrow> string \<Rightarrow> string \<Rightarrow> string \<Rightarrow> entry list \<Rightarrow> (string \<rightharpoonup> int \<times> nat) \<Rightarrow> bool"
where
  "dj_inv g ac s e pq visited \<longleftrightarrow>
     dj_paths g ac s pq \<and> visited e = None \<and> dj_closed g ac pq visited \<and>
     dj_covered pq visited s (0, 0)"

text \<open>
  What a result of \<open>least_distance\<close> means: no route, or the distance and airports of a walk
  from \<open>s\<close> to \<open>e\<close> that no other such walk beats in (distance, legs), compared
  lexicographically.
\<close>

definition dj_post ::
  "RouteGraph \<Rightarrow> string \<Rightarrow> string \<Rightarrow> string \<Rightarrow> (int \<times> string list) option \<Rightarrow> bool" where
  "dj_post g ac s e r \<longleftrightarrow>
     (case r of
        None \<Rightarrow> \<forall>es. \<not> walk g ac s es e
      | Some (d, p) \<Rightarrow> \<exists>es. walk g ac s es e \<and> p = airports s es \<and> d = total_distance es \<and>
          (\<forall>ws. walk g ac s ws e \<longrightarrow>
             d \<le> total_distance ws \<and> (total_distance ws = d \<longrightarrow> length es \<le> length ws)))"

text \<open>
  What holds of the least-distance search on every graph: the end airport has no recorded
  priority, the start is in the heap or recorded, and every matching edge of a recorded airport
  leads to an airport in the heap or recorded.
\<close>

definition dj_explored ::
  "RouteGraph \<Rightarrow> string \<Rightarrow> string \<Rightarrow> string \<Rightarrow> entry list \<Rightarrow> (string \<rightharpoonup> int \<times> nat) \<Rightarrow> bool"
where
  "dj_explored g ac s e pq visited \<longleftrightarrow>
     visited e = None \<and> s \<in> entry_airport ` set pq \<union> dom visited \<and>
     (\<forall>v \<in> dom visited. \<forall>ed \<in> set (adj g v). aircraft ed = ac \<longrightarrow>
        dest ed \<in> entry_airport ` set pq \<union> dom visited)"

text \<open>
  Example graphs: the tie-break scenario in two insertion orders, a graph with a negative
  distance, a self-loop of negative distance, and a one-route graph.
\<close>

definition tie_graph :: RouteGraph where
  "tie_graph =
     add_route (add_route (add_route init ''A'' ''B'' ''X'' 100) ''B'' ''D'' ''X'' 100)
       ''A'' ''D'' ''X'' 200"

definition tie_graph' :: RouteGraph where
  "tie_graph' =
     add_route (add_route (add_route init ''A'' ''D'' ''X'' 200) ''B'' ''D'' ''X'' 100)
       ''A'' ''B'' ''X'' 100"

definition neg_graph :: RouteGraph where
  "neg_graph =
     add_route (add_route (add_route init ''A'' ''E'' ''X'' 1) ''A'' ''B'' ''X'' 2)
       ''B'' ''E'' ''X'' (- 5)"

definition neg_loop :: RouteGraph where
  "neg_loop = add_route init ''A'' ''A'' ''X'' (- 1)"

definition one_route :: RouteGraph where
  "one_route = add_route init ''A'' ''B'' ''X'' 100"

section \<open>Building the graph\<close>

lemma map_of_add_route:
  "map_of (add_route g dep dst ac d) k =
     (if k = dep then Some (adj g dep @ [\<lparr>dest = dst, aircraft = ac, distance = d\<rparr>])
      else map_of g k)"
  by (auto simp: add_route_def getitem_def adj_def update_conv' map_add_def split: option.splits)

lemma distinct_add_route:
  "distinct (map fst g) \<Longrightarrow> distinct (map fst (add_route g dep dst ac d))"
  by (auto simp: add_route_def getitem_def distinct_update map_of_eq_None_iff split: option.splits)

lemma adj_add_route:
  "adj (add_route g dep dst ac d) k =
     (if k = dep then adj g dep @ [\<lparr>dest = dst, aircraft = ac, distance = d\<rparr>] else adj g k)"
  by (simp add: adj_def map_of_add_route)

lemma map_of_add_routes:
  "map_of (add_routes g rs) k =
     (if k \<in> Departure ` set rs
      then Some (adj g k @ map route_edge (filter (\<lambda>r. Departure r = k) rs))
      else map_of g k)"
proof (induction rs arbitrary: g)
  case Nil
  then show ?case by simp
next
  case (Cons r rs)
  show ?case
    by (auto simp: Cons.IH adj_add_route map_of_add_route route_edge_def filter_empty_conv)
      (metis imageI)
qed

lemma distinct_add_routes:
  "distinct (map fst g) \<Longrightarrow> distinct (map fst (add_routes g rs))"
  by (induction rs arbitrary: g) (auto simp: distinct_add_route)

text \<open>
  C9. Filling an empty graph with one \<open>add_route\<close> per record, in order, gives a dictionary
  with distinct keys in which a departure that occurs in the records holds exactly the edges of its
  records, in input order, and any other airport has no entry. \<open>add_route\<close> has no failing
  branch.
\<close>

theorem add_routes_adjacency:
  "distinct (map fst (add_routes init rs)) \<and>
   map_of (add_routes init rs) dep =
     (if dep \<in> Departure ` set rs
      then Some (map route_edge (filter (\<lambda>r. Departure r = dep) rs))
      else None)"
  using distinct_add_routes [of init rs] map_of_add_routes [of init rs dep]
  by (simp add: init_def adj_def)

section \<open>unique_list\<close>

lemma key_of_inj: "key_of a = key_of b \<longleftrightarrow> a = b"
  by (auto simp: key_of_def)

lemma upt_Suc_map: "[0..<Suc n] = 0 # map Suc [0..<n]"
  by (simp add: upt_conv_Cons map_Suc_upt del: upt_Suc)

lemma kept_0: "kept seen (x # xs) 0 \<longleftrightarrow> Distance x \<noteq> 0 \<and> key_of x \<notin> seen"
  by (simp add: kept_def)

lemma kept_Suc: "kept seen (x # xs) (Suc i) = kept (insert (key_of x) seen) xs i"
  by (auto simp: kept_def key_of_inj)

lemma unique_loop_eq:
  "unique_loop items seen result =
     result @ map ((!) items) (filter (kept seen items) [0..<length items])"
proof (induction items arbitrary: seen result)
  case Nil
  then show ?case by simp
next
  case (Cons x xs)
  show ?case
    unfolding length_Cons upt_Suc_map
    by (simp add: Cons.IH kept_0 kept_Suc insert_absorb filter_map comp_def del: upt_Suc)
qed

lemma distinct_unique_loop:
  "distinct result \<Longrightarrow> key_of ` set result \<subseteq> seen \<Longrightarrow>
     distinct (unique_loop items seen result)"
  by (induction items seen result rule: unique_loop.induct) auto

lemma set_unique_loop:
  "set (unique_loop items seen result) =
     set result \<union> {r \<in> set items. Distance r \<noteq> 0 \<and> key_of r \<notin> seen}"
  by (induction items seen result rule: unique_loop.induct) (auto simp: key_of_inj)

text \<open>
  C10, as the code has it. The output of \<open>unique_list\<close> has no two records with the same
  (Departure, Destination, Aircraft, Distance) key and no record of distance zero, and it lists,
  in input order, the records at the indices whose distance is not zero and whose record does not
  occur earlier in the input. Negative distances are kept.
\<close>

theorem unique_list_first_occurrences:
  "distinct (map key_of (unique_list items)) \<and>
   (\<forall>r \<in> set (unique_list items). Distance r \<noteq> 0) \<and>
   unique_list items =
     map ((!) items)
       (filter (\<lambda>i. Distance (items ! i) \<noteq> 0 \<and> items ! i \<notin> set (take i items))
          [0..<length items])"
proof (intro conjI)
  show "distinct (map key_of (unique_list items))"
    by (simp add: distinct_map inj_on_def key_of_inj unique_list_def distinct_unique_loop)
  show "\<forall>r \<in> set (unique_list items). Distance r \<noteq> 0"
    by (simp add: unique_list_def set_unique_loop)
  show "unique_list items =
     map ((!) items)
       (filter (\<lambda>i. Distance (items ! i) \<noteq> 0 \<and> items ! i \<notin> set (take i items))
          [0..<length items])"
    by (simp add: unique_list_def unique_loop_eq kept_def [abs_def])
qed

theorem unique_list_first_occurrences_witness:
  "unique_list
     [\<lparr>Departure = ''A'', Destination = ''B'', Aircraft = ''X'', Distance = 100\<rparr>,
      \<lparr>Departure = ''A'', Destination = ''C'', Aircraft = ''X'', Distance = 0\<rparr>,
      \<lparr>Departure = ''A'', Destination = ''B'', Aircraft = ''X'', Distance = 100\<rparr>] =
   [\<lparr>Departure = ''A'', Destination = ''B'', Aircraft = ''X'', Distance = 100\<rparr>]"
  using unique_list_first_occurrences
    [of "[\<lparr>Departure = ''A'', Destination = ''B'', Aircraft = ''X'', Distance = 100\<rparr>,
      \<lparr>Departure = ''A'', Destination = ''C'', Aircraft = ''X'', Distance = 0\<rparr>,
      \<lparr>Departure = ''A'', Destination = ''B'', Aircraft = ''X'', Distance = 100\<rparr>]"]
  by (simp add: upt_Suc_map del: upt_Suc)

text \<open>A record of negative distance passes \<open>unique_list\<close>: only zero is tested.\<close>

theorem unique_list_keeps_negative:
  "unique_list [\<lparr>Departure = ''A'', Destination = ''B'', Aircraft = ''X'', Distance = - 5\<rparr>] =
     [\<lparr>Departure = ''A'', Destination = ''B'', Aircraft = ''X'', Distance = - 5\<rparr>] \<and>
   \<not> 0 < Distance \<lparr>Departure = ''A'', Destination = ''B'', Aircraft = ''X'', Distance = - 5\<rparr>"
  by (simp add: unique_list_def key_of_def)

section \<open>The degenerate query and the tie-break scenario\<close>

text \<open>
  C5. When start and end are the same airport, \<open>fewest_legs\<close> returns the one-element path
  and \<open>least_distance\<close> returns distance 0 with the one-element path, whatever the graph and
  the aircraft, and the graph is not touched.
\<close>

theorem same_airport:
  "fewest_legs g s s ac = Some (Some [s], g) \<and>
   least_distance g s s ac = Some (Some (0, [s]), g)"
  by (simp add: fewest_legs_def fewest_legs_loop.simps least_distance_def
      least_distance_loop.simps heappop_def)

text \<open>
  C6. On the graph with the routes A-B (100), B-D (100) and A-D (200), all flown by X,
  \<open>least_distance\<close> from A to D returns 200 with the one-leg path, in whichever order the
  routes of A were added.
\<close>

theorem tie_break:
  "least_distance tie_graph ''A'' ''D'' ''X'' = Some (Some (200, [''A'', ''D'']), tie_graph) \<and>
   least_distance tie_graph' ''A'' ''D'' ''X'' = Some (Some (200, [''A'', ''D'']), tie_graph')"
  by (simp add: tie_graph_def tie_graph'_def init_def add_route_def getitem_def
      least_distance_def least_distance_loop.simps heappop_def heappush_def skip_entry_def)

section \<open>The searches and the dictionary\<close>

text \<open>
  C3 at a concrete query. On the graph with the single route A-B, a search from A to C looks
  B up, and the lookup inserts the key B: the keys are A before the call and A, B after it.
\<close>

theorem search_inserts_key:
  "map fst one_route = [''A''] \<and>
   fewest_legs one_route ''A'' ''C'' ''X'' = Some (None, one_route @ [(''B'', [])]) \<and>
   least_distance one_route ''A'' ''C'' ''X'' = Some (None, one_route @ [(''B'', [])])"
  by (simp add: one_route_def init_def add_route_def getitem_def
      fewest_legs_def fewest_legs_loop.simps
      least_distance_def least_distance_loop.simps heappop_def heappush_def skip_entry_def)

section \<open>Correctness of the breadth-first search\<close>

lemma getitem_fst: "fst (getitem g x) = adj g x"
  by (simp add: getitem_def adj_def split: option.splits)

lemma adj_append_empty: "adj (g @ [(k, [])]) = adj g"
  by (auto simp: adj_def fun_eq_iff split: option.splits if_splits)

lemma getitem_snd: "adj (snd (getitem g x)) = adj g"
  by (simp add: getitem_def adj_append_empty split: option.splits)

lemma walk_append:
  "walk g ac x (es @ fs) z \<longleftrightarrow> (\<exists>y. walk g ac x es y \<and> walk g ac y fs z)"
  by (induction es arbitrary: x) auto

lemma walk_snoc:
  "walk g ac x es y \<Longrightarrow> ed \<in> set (adj g y) \<Longrightarrow> aircraft ed = ac \<Longrightarrow> walk g ac x (es @ [ed]) (dest ed)"
  by (auto simp: walk_append)

lemma adj_subset: "set (adj g x) \<subseteq> set (concat (map snd g))"
proof
  fix ed assume "ed \<in> set (adj g x)"
  then obtain es where "map_of g x = Some es" "ed \<in> set es"
    by (cases "map_of g x") (auto simp: adj_def)
  then have "(x, es) \<in> set g" by (simp add: map_of_SomeD)
  with \<open>ed \<in> set es\<close> show "ed \<in> set (concat (map snd g))" by force
qed

lemma walk_nodes: "walk g ac s es x \<Longrightarrow> x \<in> nodes g s"
proof (induction es arbitrary: s)
  case Nil
  then show ?case by (simp add: nodes_def)
next
  case (Cons ed es)
  then have "x \<in> nodes g (dest ed)" and "ed \<in> set (concat (map snd g))"
    using adj_subset [of g s] by auto
  then show ?case by (auto simp: nodes_def)
qed

lemma finite_nodes: "finite (nodes g s)"
  by (simp add: nodes_def)

lemma enqueue_edges_eq:
  "enqueue_edges ac path es queue =
     queue @ map (\<lambda>ed. (dest ed, path @ [dest ed])) (filter (\<lambda>ed. aircraft ed = ac) es)"
  by (induction es arbitrary: queue) simp_all


lemma bfs_covered_skip:
  assumes "bfs_covered ((x, p) # rest) visited lv w k" "x \<in> visited" "lv x \<le> length p"
  shows "bfs_covered rest visited lv w k"
  using assms unfolding bfs_covered_def by auto

lemma bfs_covered_expand:
  assumes "bfs_covered ((x, p) # rest) visited lv w k" "x \<notin> visited"
  shows "bfs_covered (rest @ new) (insert x visited) (lv(x := length p)) w k"
  using assms unfolding bfs_covered_def by auto

lemma bfs_covered_mono:
  "bfs_covered queue visited lv w k \<Longrightarrow> k \<le> k' \<Longrightarrow> bfs_covered queue visited lv w k'"
  unfolding bfs_covered_def by (meson order_trans)

lemma bfs_cover_walk:
  assumes "bfs_closed g ac queue visited lv" "e \<notin> visited"
  shows "bfs_covered queue visited lv x k \<Longrightarrow> walk g ac x ws e \<Longrightarrow>
           \<exists>a \<in> set queue. length (snd a) \<le> k + length ws"
proof (induction ws arbitrary: x k)
  case Nil
  then obtain p where "(e, p) \<in> set queue" "length p \<le> k"
    using assms(2) by (auto simp: bfs_covered_def)
  then show ?case by force
next
  case (Cons ed ws)
  show ?case
  proof (cases "\<exists>p. (x, p) \<in> set queue \<and> length p \<le> k")
    case True
    then obtain p where "(x, p) \<in> set queue" "length p \<le> k" by blast
    then show ?thesis by force
  next
    case False
    with Cons.prems(1) have v: "x \<in> visited" "lv x \<le> k"
      by (auto simp: bfs_covered_def)
    from Cons.prems(2) have ed: "ed \<in> set (adj g x)" "aircraft ed = ac" "walk g ac (dest ed) ws e"
      by auto
    from assms(1) v(1) ed(1,2) have "bfs_covered queue visited lv (dest ed) (lv x + 1)"
      unfolding bfs_closed_def by blast
    then have "bfs_covered queue visited lv (dest ed) (k + 1)"
      using v(2) by (auto intro: bfs_covered_mono)
    from Cons.IH [OF this ed(3)] show ?thesis by auto
  qed
qed

lemma bfs_inv_init: "bfs_inv g ac s e [(s, [s])] {} lv"
proof -
  have "\<exists>es. walk g ac s es s \<and> [s] = airports s es"
    by (rule exI [of _ "[]"]) (simp add: airports_def)
  then have "bfs_paths g ac s [(s, [s])]" unfolding bfs_paths_def by simp
  then show ?thesis
    by (simp add: bfs_inv_def bfs_levels_def bfs_closed_def bfs_covered_def)
qed

lemma bfs_inv_empty:
  assumes "bfs_inv g ac s e [] visited lv"
  shows "bfs_post g ac s e None"
proof -
  have "\<not> walk g ac s ws e" for ws
    using bfs_cover_walk [of g ac "[]" visited lv e s 1 ws] assms
    by (auto simp: bfs_inv_def)
  then show ?thesis by (simp add: bfs_post_def)
qed

lemma bfs_inv_found:
  assumes "bfs_inv g ac s e ((e, p) # rest) visited lv"
  shows "bfs_post g ac s e (Some p)"
proof -
  from assms obtain es where es: "walk g ac s es e" "p = airports s es"
    by (auto simp: bfs_inv_def bfs_paths_def)
  have "length es \<le> length ws" if "walk g ac s ws e" for ws
  proof -
    from assms have "bfs_closed g ac ((e, p) # rest) visited lv" "e \<notin> visited"
      "bfs_covered ((e, p) # rest) visited lv s 1"
      by (auto simp: bfs_inv_def)
    from bfs_cover_walk [OF this that]
    obtain a where a: "a \<in> set ((e, p) # rest)" "length (snd a) \<le> 1 + length ws"
      by blast
    from assms have "sorted (map (length \<circ> snd) ((e, p) # rest))"
      by (simp add: bfs_inv_def bfs_levels_def)
    with a(1) have "length p \<le> length (snd a)" by auto
    with a(2) es(2) show ?thesis by (simp add: airports_def)
  qed
  with es show ?thesis by (auto simp: bfs_post_def)
qed

lemma sorted_map_const: "(\<forall>x \<in> set xs. f x = (c::nat)) \<Longrightarrow> sorted (map f xs)"
  by (induction xs) auto

lemma bfs_inv_skip:
  assumes inv: "bfs_inv g ac s e ((x, p) # rest) visited lv" and x: "x \<in> visited"
  shows "bfs_inv g ac s e rest visited lv"
proof -
  from inv have closed: "bfs_closed g ac ((x, p) # rest) visited lv"
    by (simp add: bfs_inv_def)
  with x have lvx: "lv x \<le> length p"
    unfolding bfs_closed_def by auto
  have "bfs_paths g ac s rest"
    using inv by (simp add: bfs_inv_def bfs_paths_def)
  moreover have "bfs_levels rest"
    using inv by (simp add: bfs_inv_def bfs_levels_def)
  moreover have "e \<notin> visited"
    using inv by (simp add: bfs_inv_def)
  moreover have "bfs_closed g ac rest visited lv"
    unfolding bfs_closed_def
  proof (intro ballI conjI impI)
    fix v a assume "v \<in> visited" "a \<in> set rest"
    with closed show "lv v \<le> length (snd a)"
      unfolding bfs_closed_def by auto
  next
    fix v ed assume "v \<in> visited" "ed \<in> set (adj g v)" "aircraft ed = ac"
    with closed have "bfs_covered ((x, p) # rest) visited lv (dest ed) (lv v + 1)"
      unfolding bfs_closed_def by blast
    then show "bfs_covered rest visited lv (dest ed) (lv v + 1)"
      using x lvx by (rule bfs_covered_skip)
  qed
  moreover have "bfs_covered rest visited lv s 1"
    using inv x lvx by (auto simp: bfs_inv_def intro: bfs_covered_skip)
  ultimately show ?thesis by (simp add: bfs_inv_def)
qed

lemma bfs_inv_expand:
  assumes inv: "bfs_inv g ac s e ((x, p) # rest) visited lv" and x: "x \<notin> visited" "x \<noteq> e"
  defines "new \<equiv> map (\<lambda>ed. (dest ed, p @ [dest ed])) (filter (\<lambda>ed. aircraft ed = ac) (adj g x))"
  shows "bfs_inv g ac s e (rest @ new) (insert x visited) (lv(x := length p))"
proof -
  from inv have closed: "bfs_closed g ac ((x, p) # rest) visited lv"
    and levels: "bfs_levels ((x, p) # rest)"
    and paths: "bfs_paths g ac s ((x, p) # rest)"
    by (simp_all add: bfs_inv_def)
  have new_len: "length (snd b) = length p + 1" if "b \<in> set new" for b
    using that by (auto simp: new_def)
  have rest_lo: "length p \<le> length (snd b)" if "b \<in> set rest" for b
    using that levels by (auto simp: bfs_levels_def)
  have rest_hi: "length (snd b) \<le> length p + 1" if "b \<in> set rest" for b
    using that levels by (auto simp: bfs_levels_def)
  have "bfs_paths g ac s (rest @ new)"
    unfolding bfs_paths_def
  proof
    fix a assume "a \<in> set (rest @ new)"
    then consider "a \<in> set rest" | "a \<in> set new" by auto
    then show "\<exists>es. walk g ac s es (fst a) \<and> snd a = airports s es"
    proof cases
      case 1
      with paths show ?thesis by (simp add: bfs_paths_def)
    next
      case 2
      then obtain ed where ed: "ed \<in> set (adj g x)" "aircraft ed = ac" "a = (dest ed, p @ [dest ed])"
        by (auto simp: new_def)
      from paths obtain es where es: "walk g ac s es x" "p = airports s es"
        by (auto simp: bfs_paths_def)
      have "walk g ac s (es @ [ed]) (fst a) \<and> snd a = airports s (es @ [ed])"
        using es ed by (simp add: walk_snoc airports_def)
      then show ?thesis ..
    qed
  qed
  moreover have "bfs_levels (rest @ new)"
  proof -
    have "sorted (map (length \<circ> snd) rest)"
      using levels by (simp add: bfs_levels_def)
    moreover have "sorted (map (length \<circ> snd) new)"
      by (rule sorted_map_const [of _ _ "length p + 1"]) (simp add: new_len)
    moreover have "length (snd a) \<le> length (snd b)" if "a \<in> set rest" "b \<in> set new" for a b
      using rest_hi [OF that(1)] new_len [OF that(2)] by simp
    ultimately have "sorted (map (length \<circ> snd) (rest @ new))"
      by (simp add: sorted_append)
    moreover have "length (snd b) \<le> length (snd a) + 1"
      if "a \<in> set (rest @ new)" "b \<in> set (rest @ new)" for a b
    proof -
      have "length p \<le> length (snd a)"
        using that(1) rest_lo [of a] new_len [of a] by auto
      moreover have "length (snd b) \<le> length p + 1"
        using that(2) rest_hi [of b] new_len [of b] by auto
      ultimately show ?thesis by simp
    qed
    ultimately show ?thesis unfolding bfs_levels_def by blast
  qed
  moreover have "e \<notin> insert x visited"
    using inv x by (simp add: bfs_inv_def)
  moreover have "bfs_closed g ac (rest @ new) (insert x visited) (lv(x := length p))"
    unfolding bfs_closed_def
  proof (intro ballI conjI impI)
    fix v b assume v: "v \<in> insert x visited" and b: "b \<in> set (rest @ new)"
    show "(lv(x := length p)) v \<le> length (snd b)"
    proof (cases "v = x")
      case True
      then show ?thesis using b rest_lo [of b] new_len [of b] by auto
    next
      case False
      with v closed have "lv v \<le> length p" "\<forall>a \<in> set rest. lv v \<le> length (snd a)"
        unfolding bfs_closed_def by auto
      then show ?thesis using False b new_len [of b] by auto
    qed
  next
    fix v ed assume v: "v \<in> insert x visited" and ed: "ed \<in> set (adj g v)" "aircraft ed = ac"
    show "bfs_covered (rest @ new) (insert x visited) (lv(x := length p)) (dest ed) ((lv(x := length p)) v + 1)"
    proof (cases "v = x")
      case True
      with ed have "(dest ed, p @ [dest ed]) \<in> set new"
        by (auto simp: new_def)
      then show ?thesis using True by (auto simp: bfs_covered_def)
    next
      case False
      with v ed closed have "bfs_covered ((x, p) # rest) visited lv (dest ed) (lv v + 1)"
        unfolding bfs_closed_def by blast
      from bfs_covered_expand [OF this x(1)] False show ?thesis by simp
    qed
  qed
  moreover have "bfs_covered (rest @ new) (insert x visited) (lv(x := length p)) s 1"
    using inv x(1) by (auto simp: bfs_inv_def intro: bfs_covered_expand)
  ultimately show ?thesis by (simp add: bfs_inv_def)
qed


lemma bfs_queue_nodes:
  assumes "bfs_inv g ac s e ((x, p) # rest) visited lv"
  shows "x \<in> nodes g s"
proof -
  from assms obtain es where "walk g ac s es x"
    by (auto simp: bfs_inv_def bfs_paths_def)
  then show ?thesis by (rule walk_nodes)
qed

lemma fewest_legs_loop_Nil: "fewest_legs_loop e ac g [] visited = Some (None, g)"
  by (subst fewest_legs_loop.simps) simp

lemma fewest_legs_loop_found:
  "fewest_legs_loop e ac g ((e, p) # rest) visited = Some (Some p, g)"
  by (subst fewest_legs_loop.simps) simp

lemma fewest_legs_loop_skip:
  "x \<noteq> e \<Longrightarrow> x \<in> visited \<Longrightarrow>
     fewest_legs_loop e ac g ((x, p) # rest) visited = fewest_legs_loop e ac g rest visited"
  by (subst fewest_legs_loop.simps) simp

lemma fewest_legs_loop_expand:
  "x \<noteq> e \<Longrightarrow> x \<notin> visited \<Longrightarrow>
     fewest_legs_loop e ac g ((x, p) # rest) visited =
       fewest_legs_loop e ac (snd (getitem g x))
         (rest @ map (\<lambda>ed. (dest ed, p @ [dest ed])) (filter (\<lambda>ed. aircraft ed = ac) (adj g x)))
         (insert x visited)"
  by (subst fewest_legs_loop.simps)
     (simp add: enqueue_edges_eq getitem_fst [symmetric] split: prod.splits)

lemma fewest_legs_loop_total:
  "bfs_inv g0 ac s e queue visited lv \<Longrightarrow> adj g = adj g0 \<Longrightarrow>
     \<exists>r g'. fewest_legs_loop e ac g queue visited = Some (r, g') \<and> adj g' = adj g0 \<and>
        bfs_post g0 ac s e r"
proof (induction "(card (nodes g0 s - visited), length queue)"
    arbitrary: g queue visited lv rule: less_induct)
  case less
  show ?case
  proof (cases queue)
    case Nil
    with less.prems show ?thesis
      by (simp add: fewest_legs_loop_Nil bfs_inv_empty)
  next
    case (Cons a rest)
    obtain x p where a: "a = (x, p)" by (cases a)
    note queue = Cons [unfolded a]
    have inv: "bfs_inv g0 ac s e ((x, p) # rest) visited lv"
      using less.prems(1) queue by simp
    consider (found) "x = e" | (skip) "x \<noteq> e" "x \<in> visited" | (expand) "x \<noteq> e" "x \<notin> visited"
      by blast
    then show ?thesis
    proof cases
      case found
      with inv have "bfs_post g0 ac s e (Some p)"
        by (simp add: bfs_inv_found)
      with found less.prems(2) show ?thesis
        by (simp add: queue fewest_legs_loop_found)
    next
      case skip
      have "bfs_inv g0 ac s e rest visited lv"
        using inv skip(2) by (rule bfs_inv_skip)
      moreover have "(card (nodes g0 s - visited), length rest) < (card (nodes g0 s - visited), length queue)"
        by (simp add: queue)
      ultimately obtain r g' where
        "fewest_legs_loop e ac g rest visited = Some (r, g')" "adj g' = adj g0" "bfs_post g0 ac s e r"
        using less.hyps [of visited rest lv g] less.prems(2) by blast
      with skip show ?thesis
        by (simp add: queue fewest_legs_loop_skip)
    next
      case expand
      define new where "new = map (\<lambda>ed. (dest ed, p @ [dest ed])) (filter (\<lambda>ed. aircraft ed = ac) (adj g0 x))"
      define g1 where "g1 = snd (getitem g x)"
      have adj1: "adj g1 = adj g0"
        using less.prems(2) by (simp add: g1_def getitem_snd)
      have inv': "bfs_inv g0 ac s e (rest @ new) (insert x visited) (lv(x := length p))"
        unfolding new_def using inv expand(2,1) by (rule bfs_inv_expand)
      have "x \<in> nodes g0 s - visited"
        using bfs_queue_nodes [OF inv] expand(2) by simp
      then have "card (nodes g0 s - insert x visited) < card (nodes g0 s - visited)"
        by (metis Diff_insert card_Diff1_less finite_Diff finite_nodes)
      then have "(card (nodes g0 s - insert x visited), length (rest @ new))
          < (card (nodes g0 s - visited), length queue)"
        by simp
      then obtain r g' where
        "fewest_legs_loop e ac g1 (rest @ new) (insert x visited) = Some (r, g')"
        "adj g' = adj g0" "bfs_post g0 ac s e r"
        using less.hyps [of "insert x visited" "rest @ new" "lv(x := length p)" g1] inv' adj1 by blast
      with expand less.prems(2) show ?thesis
        by (simp add: queue fewest_legs_loop_expand new_def g1_def)
    qed
  qed
qed

lemma walk_last: "walk g ac s es e \<Longrightarrow> last (airports s es) = e"
  by (induction es arbitrary: s) (auto simp: airports_def)

lemma fewest_legs_total:
  "\<exists>r g'. fewest_legs g s e ac = Some (r, g') \<and> adj g' = adj g \<and> bfs_post g ac s e r"
  unfolding fewest_legs_def
  by (rule fewest_legs_loop_total [OF bfs_inv_init [of g ac s e "\<lambda>_. 0"] refl])

text \<open>
  C2. A path returned by \<open>fewest_legs\<close> starts at \<open>s\<close>, ends at \<open>e\<close>, is the list of
  airports of a walk in the graph along edges of the requested aircraft, and no walk from \<open>s\<close>
  to \<open>e\<close> along such edges has fewer edges.
\<close>

theorem fewest_legs_shortest:
  assumes "fewest_legs g s e ac = Some (Some p, g')"
  shows "hd p = s \<and> last p = e \<and>
    (\<exists>es. walk g ac s es e \<and> p = airports s es \<and> length p = length es + 1 \<and>
       (\<forall>ws. walk g ac s ws e \<longrightarrow> length es \<le> length ws))"
proof -
  from fewest_legs_total [of g s e ac] assms have "bfs_post g ac s e (Some p)"
    by auto
  then obtain es where es: "walk g ac s es e" "p = airports s es"
    "\<forall>ws. walk g ac s ws e \<longrightarrow> length es \<le> length ws"
    by (auto simp: bfs_post_def)
  moreover have "hd p = s" "length p = length es + 1"
    using es(2) by (simp_all add: airports_def)
  moreover have "last p = e"
    using es(1,2) by (simp add: walk_last)
  ultimately show ?thesis by blast
qed

theorem fewest_legs_shortest_witness:
  "fewest_legs tie_graph ''A'' ''D'' ''X'' = Some (Some [''A'', ''D''], tie_graph) \<and>
   hd [''A'', ''D''] = ''A'' \<and> last [''A'', ''D''] = ''D'' \<and>
    (\<exists>es. walk tie_graph ''X'' ''A'' es ''D'' \<and> [''A'', ''D''] = airports ''A'' es \<and>
       length [''A'', ''D''] = length es + 1 \<and>
       (\<forall>ws. walk tie_graph ''X'' ''A'' ws ''D'' \<longrightarrow> length es \<le> length ws))"
proof -
  have h: "fewest_legs tie_graph ''A'' ''D'' ''X'' = Some (Some [''A'', ''D''], tie_graph)"
    by (simp add: tie_graph_def init_def add_route_def getitem_def
        fewest_legs_def fewest_legs_loop.simps)
  show ?thesis
    using h fewest_legs_shortest [OF h] by blast
qed

section \<open>Correctness of the least-distance search\<close>

lemma push_edges_eq:
  "push_edges ac d h path es pq =
     pq @ map (\<lambda>ed. (d + distance ed, h + 1, dest ed, path @ [dest ed]))
            (filter (\<lambda>ed. aircraft ed = ac) es)"
  by (induction es arbitrary: pq) (simp_all add: heappush_def)

lemma heappop_min:
  assumes "pq \<noteq> []" "heappop pq = (m, pq')"
  shows "m \<in> set pq" "\<And>a. a \<in> set pq \<Longrightarrow> m \<le> a" "set pq' \<subseteq> set pq"
    "set pq \<subseteq> insert m (set pq')" "length pq = Suc (length pq')"
proof -
  from assms have m: "m = Min (set pq)" and pq': "pq' = remove1 m pq"
    by (auto simp: heappop_def Let_def)
  show in_pq: "m \<in> set pq" using assms(1) m by simp
  show "m \<le> a" if "a \<in> set pq" for a using that m by simp
  show "set pq' \<subseteq> set pq" using pq' by (simp add: set_remove1_subset)
  show "set pq \<subseteq> insert m (set pq')"
  proof
    fix a assume "a \<in> set pq"
    then show "a \<in> insert m (set pq')"
      using pq' by (cases "a = m") (simp_all add: in_set_remove1)
  qed
  have "length pq' = length pq - 1"
    using in_pq pq' by (simp add: length_remove1)
  moreover have "0 < length pq"
    using assms(1) by simp
  ultimately show "length pq = Suc (length pq')"
    by simp
qed

lemma entry_key_mono: "(a::entry) \<le> b \<Longrightarrow> entry_key a \<le> entry_key b"
  by (auto simp: entry_key_def less_eq_prod_def less_prod_def)

lemma key_shift_mono:
  "(L::int \<times> nat) \<le> K \<Longrightarrow> (fst L + w, snd L + n) \<le> (fst K + w, snd K + n)"
  by (auto simp: less_eq_prod_def)

lemma key_le_shift: "0 \<le> w \<Longrightarrow> (K::int \<times> nat) \<le> (fst K + w, snd K + n)"
  by (auto simp: less_eq_prod_def)

lemma skip_entry_iff:
  "skip_entry visited x d h \<longleftrightarrow> (\<exists>L. visited x = Some L \<and> L \<le> (d, h))"
  by (auto simp: skip_entry_def less_eq_prod_def split: option.splits)

lemma least_distance_loop_Nil: "least_distance_loop e ac g [] visited = Some (None, g)"
  by (subst least_distance_loop.simps) simp

lemma least_distance_loop_found:
  "pq \<noteq> [] \<Longrightarrow> heappop pq = ((d, h, e, p), pq') \<Longrightarrow>
     least_distance_loop e ac g pq visited = Some (Some (d, p), g)"
  by (subst least_distance_loop.simps) simp

lemma least_distance_loop_skip:
  "pq \<noteq> [] \<Longrightarrow> heappop pq = ((d, h, x, p), pq') \<Longrightarrow> x \<noteq> e \<Longrightarrow> skip_entry visited x d h \<Longrightarrow>
     least_distance_loop e ac g pq visited = least_distance_loop e ac g pq' visited"
  by (subst least_distance_loop.simps) simp

lemma least_distance_loop_expand:
  "pq \<noteq> [] \<Longrightarrow> heappop pq = ((d, h, x, p), pq') \<Longrightarrow> x \<noteq> e \<Longrightarrow> \<not> skip_entry visited x d h \<Longrightarrow>
     least_distance_loop e ac g pq visited =
       least_distance_loop e ac (snd (getitem g x))
         (pq' @ map (\<lambda>ed. (d + distance ed, h + 1, dest ed, p @ [dest ed]))
                  (filter (\<lambda>ed. aircraft ed = ac) (adj g x)))
         (visited(x \<mapsto> (d, h)))"
  by (subst least_distance_loop.simps)
     (simp add: push_edges_eq getitem_fst [symmetric] split: prod.splits)

lemma total_distance_simps [simp]:
  "total_distance [] = 0" "total_distance (ed # es) = distance ed + total_distance es"
  "total_distance (es @ fs) = total_distance es + total_distance fs"
  by (simp_all add: total_distance_def)

lemma walk_nonneg:
  "nonneg_distances g ac \<Longrightarrow> walk g ac x ws y \<Longrightarrow> 0 \<le> total_distance ws"
proof (induction ws arbitrary: x)
  case Nil
  then show ?case by simp
next
  case (Cons ed ws)
  then have "ed \<in> set (concat (map snd g))" "aircraft ed = ac"
    using adj_subset [of g x] by auto
  with Cons.prems(1) have "0 \<le> distance ed"
    unfolding nonneg_distances_def by blast
  moreover have "0 \<le> total_distance ws"
    using Cons by auto
  ultimately show ?case by simp
qed


lemma entry_parts [simp]:
  "entry_key (d, h, x, p) = (d, h)" "entry_airport (d, h, x, p) = x" "entry_path (d, h, x, p) = p"
  by (simp_all add: entry_key_def entry_airport_def entry_path_def)

lemma adj_nonneg:
  "nonneg_distances g ac \<Longrightarrow> ed \<in> set (adj g x) \<Longrightarrow> aircraft ed = ac \<Longrightarrow> 0 \<le> distance ed"
  using adj_subset [of g x] unfolding nonneg_distances_def by blast

lemma dj_covered_mono:
  "dj_covered pq visited w K \<Longrightarrow> K \<le> K' \<Longrightarrow> dj_covered pq visited w K'"
  unfolding dj_covered_def by (meson order_trans)

lemma dj_covered_skip:
  assumes "dj_covered pq visited w K" "set pq \<subseteq> insert m (set pq')"
    "visited (entry_airport m) = Some L" "L \<le> entry_key m"
  shows "dj_covered pq' visited w K"
proof (cases "\<exists>L. visited w = Some L \<and> L \<le> K")
  case True
  then show ?thesis by (simp add: dj_covered_def)
next
  case False
  with assms(1) obtain a where a: "a \<in> set pq" "entry_airport a = w" "entry_key a \<le> K"
    by (auto simp: dj_covered_def)
  have "a \<noteq> m"
  proof
    assume "a = m"
    with a(2,3) assms(3,4) have "visited w = Some L" "L \<le> K"
      by (auto intro: order_trans)
    with False show False by blast
  qed
  with a(1) assms(2) have "a \<in> set pq'" by auto
  with a(2,3) show ?thesis by (auto simp: dj_covered_def)
qed

lemma dj_covered_expand:
  assumes "dj_covered pq visited w K" "set pq \<subseteq> insert m (set pq')"
    "visited (entry_airport m) = None"
  shows "dj_covered (pq' @ new) (visited(entry_airport m \<mapsto> entry_key m)) w K"
proof (cases "\<exists>L. visited w = Some L \<and> L \<le> K")
  case True
  then have "w \<noteq> entry_airport m" using assms(3) by auto
  with True show ?thesis by (simp add: dj_covered_def)
next
  case False
  with assms(1) obtain a where a: "a \<in> set pq" "entry_airport a = w" "entry_key a \<le> K"
    by (auto simp: dj_covered_def)
  show ?thesis
  proof (cases "a = m")
    case True
    with a(2,3) show ?thesis by (simp add: dj_covered_def)
  next
    case False
    with a(1) assms(2) have "a \<in> set (pq' @ new)" by auto
    with a(2,3) show ?thesis unfolding dj_covered_def by blast
  qed
qed

lemma dj_cover_walk:
  assumes "dj_closed g ac pq visited" "visited e = None" "nonneg_distances g ac"
  shows "dj_covered pq visited x K \<Longrightarrow> walk g ac x ws e \<Longrightarrow>
           \<exists>a \<in> set pq. entry_key a \<le> (fst K + total_distance ws, snd K + length ws)"
proof (induction ws arbitrary: x K)
  case Nil
  then show ?case using assms(2) by (auto simp: dj_covered_def)
next
  case (Cons ed ws)
  from Cons.prems(2) have ed: "ed \<in> set (adj g x)" "aircraft ed = ac" "walk g ac (dest ed) ws e"
    by auto
  show ?case
  proof (cases "\<exists>a \<in> set pq. entry_airport a = x \<and> entry_key a \<le> K")
    case True
    then obtain a where a: "a \<in> set pq" "entry_key a \<le> K" by blast
    have "0 \<le> total_distance (ed # ws)"
      using assms(3) Cons.prems(2) by (rule walk_nonneg)
    then have "K \<le> (fst K + total_distance (ed # ws), snd K + length (ed # ws))"
      by (rule key_le_shift)
    with a(2) have "entry_key a \<le> (fst K + total_distance (ed # ws), snd K + length (ed # ws))"
      by (rule order_trans)
    with a(1) show ?thesis ..
  next
    case False
    with Cons.prems(1) obtain L where L: "visited x = Some L" "L \<le> K"
      by (auto simp: dj_covered_def)
    from assms(1) L(1) ed(1,2)
    have "dj_covered pq visited (dest ed) (fst L + distance ed, snd L + 1)"
      unfolding dj_closed_def by blast
    moreover have "(fst L + distance ed, snd L + 1) \<le> (fst K + distance ed, snd K + 1)"
      using L(2) by (rule key_shift_mono)
    ultimately have "dj_covered pq visited (dest ed) (fst K + distance ed, snd K + 1)"
      by (rule dj_covered_mono)
    from Cons.IH [OF this ed(3)] show ?thesis
      by (simp add: add.assoc)
  qed
qed

lemma dj_inv_init: "dj_inv g ac s e [(0, 0, s, [s])] Map.empty"
proof -
  have "\<exists>es. walk g ac s es s \<and> [s] = airports s es \<and> (0, 0) = (total_distance es, length es)"
    by (rule exI [of _ "[]"]) (simp add: airports_def)
  then have "dj_paths g ac s [(0, 0, s, [s])]"
    unfolding dj_paths_def by simp
  then show ?thesis
    by (simp add: dj_inv_def dj_closed_def dj_covered_def)
qed

lemma dj_inv_empty:
  assumes "dj_inv g ac s e [] visited" "nonneg_distances g ac"
  shows "dj_post g ac s e None"
proof -
  have "\<not> walk g ac s ws e" for ws
    using dj_cover_walk [of g ac "[]" visited e s "(0, 0)" ws] assms
    by (auto simp: dj_inv_def)
  then show ?thesis by (simp add: dj_post_def)
qed

lemma dj_inv_found:
  assumes inv: "dj_inv g ac s e pq visited" and nn: "nonneg_distances g ac"
    and pop: "pq \<noteq> []" "heappop pq = ((d, h, e, p), pq')"
  shows "dj_post g ac s e (Some (d, p))"
proof -
  note m = heappop_min [OF pop]
  from inv have "dj_paths g ac s pq" by (simp add: dj_inv_def)
  with m(1) have "\<exists>es. walk g ac s es (entry_airport (d, h, e, p)) \<and>
      entry_path (d, h, e, p) = airports s es \<and>
      entry_key (d, h, e, p) = (total_distance es, length es)"
    unfolding dj_paths_def by (rule bspec [rotated])
  then obtain es where es: "walk g ac s es e" "p = airports s es"
    "(d, h) = (total_distance es, length es)"
    by auto
  have "d \<le> total_distance ws \<and> (total_distance ws = d \<longrightarrow> length es \<le> length ws)"
    if "walk g ac s ws e" for ws
  proof -
    from inv have "dj_closed g ac pq visited" "visited e = None" "dj_covered pq visited s (0, 0)"
      by (simp_all add: dj_inv_def)
    from dj_cover_walk [OF this(1,2) nn this(3) that]
    obtain a where a: "a \<in> set pq" "entry_key a \<le> (total_distance ws, length ws)"
      by auto
    from entry_key_mono [OF m(2) [OF a(1)]] have "(d, h) \<le> entry_key a"
      by simp
    from this a(2) have "(d, h) \<le> (total_distance ws, length ws)"
      by (rule order_trans)
    with es(3) show ?thesis
      by (simp add: less_eq_prod_def) linarith
  qed
  with es show ?thesis by (auto simp: dj_post_def)
qed

lemma dj_inv_skip:
  assumes inv: "dj_inv g ac s e pq visited"
    and pop: "pq \<noteq> []" "heappop pq = (m, pq')"
    and L: "visited (entry_airport m) = Some L" "L \<le> entry_key m"
  shows "dj_inv g ac s e pq' visited"
proof -
  note m = heappop_min [OF pop]
  from inv have closed: "dj_closed g ac pq visited"
    by (simp add: dj_inv_def)
  have "dj_paths g ac s pq'"
    using inv m(3) unfolding dj_inv_def dj_paths_def by blast
  moreover have "visited e = None"
    using inv by (simp add: dj_inv_def)
  moreover have "dj_closed g ac pq' visited"
    unfolding dj_closed_def
  proof (intro allI impI conjI ballI)
    fix v K a assume "visited v = Some K" "a \<in> set pq'"
    with closed m(3) show "K \<le> entry_key a"
      unfolding dj_closed_def by blast
  next
    fix v K ed assume "visited v = Some K" "ed \<in> set (adj g v)" "aircraft ed = ac"
    with closed have "dj_covered pq visited (dest ed) (fst K + distance ed, snd K + 1)"
      unfolding dj_closed_def by blast
    then show "dj_covered pq' visited (dest ed) (fst K + distance ed, snd K + 1)"
      using m(4) L by (rule dj_covered_skip)
  qed
  moreover have "dj_covered pq' visited s (0, 0)"
  proof -
    from inv have "dj_covered pq visited s (0, 0)" by (simp add: dj_inv_def)
    then show ?thesis using m(4) L by (rule dj_covered_skip)
  qed
  ultimately show ?thesis by (simp add: dj_inv_def)
qed

lemma dj_inv_expand:
  assumes inv: "dj_inv g ac s e pq visited" and nn: "nonneg_distances g ac"
    and pop: "pq \<noteq> []" "heappop pq = ((d, h, x, p), pq')"
    and x: "x \<noteq> e" "visited x = None"
  defines "new \<equiv> map (\<lambda>ed. (d + distance ed, h + 1, dest ed, p @ [dest ed]))
                      (filter (\<lambda>ed. aircraft ed = ac) (adj g x))"
  shows "dj_inv g ac s e (pq' @ new) (visited(x \<mapsto> (d, h)))"
proof -
  note m = heappop_min [OF pop]
  from inv have closed: "dj_closed g ac pq visited" and paths: "dj_paths g ac s pq"
    by (simp_all add: dj_inv_def)
  have vis_m: "visited (entry_airport (d, h, x, p)) = None"
    using x(2) by simp
  have upd: "visited(x \<mapsto> (d, h)) = visited(entry_airport (d, h, x, p) \<mapsto> entry_key (d, h, x, p))"
    by simp
  have new_key: "(d, h) \<le> entry_key a" if "a \<in> set new" for a
  proof -
    from that obtain ed where ed: "ed \<in> set (adj g x)" "aircraft ed = ac"
      "a = (d + distance ed, h + 1, dest ed, p @ [dest ed])"
      by (auto simp: new_def)
    from adj_nonneg [OF nn ed(1,2)] have "(d, h) \<le> (fst (d, h) + distance ed, snd (d, h) + 1)"
      by (rule key_le_shift)
    with ed(3) show ?thesis by simp
  qed
  have old_key: "(d, h) \<le> entry_key a" if "a \<in> set pq'" for a
  proof -
    from that m(3) have "a \<in> set pq" by blast
    from entry_key_mono [OF m(2) [OF this]] show ?thesis by simp
  qed
  have "dj_paths g ac s (pq' @ new)"
    unfolding dj_paths_def
  proof
    fix a assume "a \<in> set (pq' @ new)"
    then consider "a \<in> set pq'" | "a \<in> set new" by auto
    then show "\<exists>es. walk g ac s es (entry_airport a) \<and> entry_path a = airports s es \<and>
        entry_key a = (total_distance es, length es)"
    proof cases
      case 1
      with m(3) paths show ?thesis unfolding dj_paths_def by blast
    next
      case 2
      then obtain ed where ed: "ed \<in> set (adj g x)" "aircraft ed = ac"
        "a = (d + distance ed, h + 1, dest ed, p @ [dest ed])"
        by (auto simp: new_def)
      from paths m(1) have "\<exists>es. walk g ac s es (entry_airport (d, h, x, p)) \<and>
          entry_path (d, h, x, p) = airports s es \<and>
          entry_key (d, h, x, p) = (total_distance es, length es)"
        unfolding dj_paths_def by (rule bspec)
      then obtain es where es: "walk g ac s es x" "p = airports s es"
        "d = total_distance es" "h = length es"
        by auto
      have "walk g ac s (es @ [ed]) (entry_airport a) \<and> entry_path a = airports s (es @ [ed]) \<and>
          entry_key a = (total_distance (es @ [ed]), length (es @ [ed]))"
        using es ed by (simp add: walk_snoc airports_def)
      then show ?thesis ..
    qed
  qed
  moreover have "(visited(x \<mapsto> (d, h))) e = None"
    using inv x(1) by (simp add: dj_inv_def)
  moreover have "dj_closed g ac (pq' @ new) (visited(x \<mapsto> (d, h)))"
    unfolding dj_closed_def
  proof (intro allI impI conjI ballI)
    fix v K a assume v: "(visited(x \<mapsto> (d, h))) v = Some K" and a: "a \<in> set (pq' @ new)"
    have dh: "(d, h) \<le> entry_key a"
      using a old_key [of a] new_key [of a] by auto
    show "K \<le> entry_key a"
    proof (cases "v = x")
      case True
      with v dh show ?thesis by simp
    next
      case False
      with v have "visited v = Some K" by simp
      with closed m(1) have "K \<le> entry_key (d, h, x, p)"
        unfolding dj_closed_def by blast
      then have "K \<le> (d, h)" by simp
      from this dh show ?thesis by (rule order_trans)
    qed
  next
    fix v K ed
    assume v: "(visited(x \<mapsto> (d, h))) v = Some K"
      and ed: "ed \<in> set (adj g v)" "aircraft ed = ac"
    show "dj_covered (pq' @ new) (visited(x \<mapsto> (d, h))) (dest ed) (fst K + distance ed, snd K + 1)"
    proof (cases "v = x")
      case True
      with v have K: "K = (d, h)" by simp
      from True ed have "(d + distance ed, h + 1, dest ed, p @ [dest ed]) \<in> set (pq' @ new)"
        by (auto simp: new_def)
      then show ?thesis
        unfolding dj_covered_def K by force
    next
      case False
      with v have "visited v = Some K" by simp
      with closed ed have "dj_covered pq visited (dest ed) (fst K + distance ed, snd K + 1)"
        unfolding dj_closed_def by blast
      from dj_covered_expand [OF this m(4) vis_m, of new] show ?thesis
        by simp
    qed
  qed
  moreover have "dj_covered (pq' @ new) (visited(x \<mapsto> (d, h))) s (0, 0)"
  proof -
    from inv have "dj_covered pq visited s (0, 0)" by (simp add: dj_inv_def)
    from dj_covered_expand [OF this m(4) vis_m, of new] show ?thesis by simp
  qed
  ultimately show ?thesis by (simp add: dj_inv_def)
qed


lemma dj_queue_nodes:
  assumes "dj_inv g ac s e pq visited" "a \<in> set pq"
  shows "entry_airport a \<in> nodes g s"
proof -
  from assms obtain es where "walk g ac s es (entry_airport a)"
    unfolding dj_inv_def dj_paths_def by blast
  then show ?thesis by (rule walk_nodes)
qed

lemma dj_not_skipped:
  assumes inv: "dj_inv g ac s e pq visited"
    and pop: "pq \<noteq> []" "heappop pq = ((d, h, x, p), pq')"
    and ns: "\<not> skip_entry visited x d h"
  shows "visited x = None"
proof (cases "visited x")
  case None
  then show ?thesis .
next
  case (Some L)
  note m = heappop_min [OF pop]
  from inv have "dj_closed g ac pq visited" by (simp add: dj_inv_def)
  with Some m(1) have "L \<le> entry_key (d, h, x, p)"
    unfolding dj_closed_def by blast
  with Some ns show ?thesis by (simp add: skip_entry_iff)
qed

lemma least_distance_loop_total:
  "nonneg_distances g0 ac \<Longrightarrow> dj_inv g0 ac s e pq visited \<Longrightarrow> adj g = adj g0 \<Longrightarrow>
     \<exists>r g'. least_distance_loop e ac g pq visited = Some (r, g') \<and> adj g' = adj g0 \<and>
        dj_post g0 ac s e r"
proof (induction "(card (nodes g0 s - dom visited), length pq)"
    arbitrary: g pq visited rule: less_induct)
  case less
  note nn = less.prems(1) and inv = less.prems(2) and adj_g = less.prems(3)
  show ?case
  proof (cases "pq = []")
    case True
    with inv nn adj_g show ?thesis
      by (simp add: least_distance_loop_Nil dj_inv_empty)
  next
    case False
    obtain d h x p pq' where pop: "heappop pq = ((d, h, x, p), pq')"
      by (metis prod_cases4 surj_pair)
    note m = heappop_min [OF False pop]
    consider (found) "x = e" | (skip) "x \<noteq> e" "skip_entry visited x d h"
      | (expand) "x \<noteq> e" "\<not> skip_entry visited x d h"
      by blast
    then show ?thesis
    proof cases
      case found
      with inv nn False pop have "dj_post g0 ac s e (Some (d, p))"
        by (simp add: dj_inv_found)
      moreover have "least_distance_loop e ac g pq visited = Some (Some (d, p), g)"
        using False pop found by (simp add: least_distance_loop_found)
      ultimately show ?thesis using adj_g by simp
    next
      case skip
      then obtain L where L: "visited x = Some L" "L \<le> (d, h)"
        by (auto simp: skip_entry_iff)
      have "visited (entry_airport (d, h, x, p)) = Some L" "L \<le> entry_key (d, h, x, p)"
        using L by simp_all
      with inv False pop have "dj_inv g0 ac s e pq' visited"
        by (rule dj_inv_skip)
      moreover have "(card (nodes g0 s - dom visited), length pq')
          < (card (nodes g0 s - dom visited), length pq)"
        using m(5) by simp
      ultimately obtain r g' where
        "least_distance_loop e ac g pq' visited = Some (r, g')" "adj g' = adj g0"
        "dj_post g0 ac s e r"
        using less.hyps [of visited pq' g] nn adj_g by blast
      moreover have "least_distance_loop e ac g pq visited = least_distance_loop e ac g pq' visited"
        using False pop skip by (rule least_distance_loop_skip)
      ultimately show ?thesis by simp
    next
      case expand
      define new where "new = map (\<lambda>ed. (d + distance ed, h + 1, dest ed, p @ [dest ed]))
                      (filter (\<lambda>ed. aircraft ed = ac) (adj g0 x))"
      define g1 where "g1 = snd (getitem g x)"
      have adj1: "adj g1 = adj g0"
        using adj_g by (simp add: g1_def getitem_snd)
      have vx: "visited x = None"
        using inv False pop expand(2) by (rule dj_not_skipped)
      have inv': "dj_inv g0 ac s e (pq' @ new) (visited(x \<mapsto> (d, h)))"
        unfolding new_def using inv nn False pop expand(1) vx by (rule dj_inv_expand)
      have "entry_airport (d, h, x, p) \<in> nodes g0 s"
        using inv m(1) by (rule dj_queue_nodes)
      with vx have "x \<in> nodes g0 s - dom visited"
        by (simp add: domIff)
      then have "card (nodes g0 s - insert x (dom visited)) < card (nodes g0 s - dom visited)"
        by (metis Diff_insert card_Diff1_less finite_Diff finite_nodes)
      then have "(card (nodes g0 s - dom (visited(x \<mapsto> (d, h)))), length (pq' @ new))
          < (card (nodes g0 s - dom visited), length pq)"
        by simp
      then obtain r g' where
        "least_distance_loop e ac g1 (pq' @ new) (visited(x \<mapsto> (d, h))) = Some (r, g')"
        "adj g' = adj g0" "dj_post g0 ac s e r"
        using less.hyps [of "visited(x \<mapsto> (d, h))" "pq' @ new" g1] nn inv' adj1 by blast
      moreover have "least_distance_loop e ac g pq visited =
          least_distance_loop e ac g1 (pq' @ new) (visited(x \<mapsto> (d, h)))"
        unfolding new_def g1_def adj_g [symmetric]
        using False pop expand by (rule least_distance_loop_expand)
      ultimately show ?thesis by simp
    qed
  qed
qed

section \<open>Invariant rules for runs that return\<close>

text \<open>
  If a run of a loop returns, every property that its steps preserve holds where it exits.
  Unlike the results above, these rules do not need the run to terminate for a reason known
  beforehand, so they also cover graphs with negative distances.
\<close>

lemma least_distance_loop_rule:
  assumes run: "least_distance_loop e ac g pq visited = Some (r, g')"
    and init: "I g pq visited"
    and I_skip: "\<And>g pq visited d h x p pq'. I g pq visited \<Longrightarrow> pq \<noteq> [] \<Longrightarrow>
        heappop pq = ((d, h, x, p), pq') \<Longrightarrow> x \<noteq> e \<Longrightarrow> skip_entry visited x d h \<Longrightarrow>
        I g pq' visited"
    and I_expand: "\<And>g pq visited d h x p pq'. I g pq visited \<Longrightarrow> pq \<noteq> [] \<Longrightarrow>
        heappop pq = ((d, h, x, p), pq') \<Longrightarrow> x \<noteq> e \<Longrightarrow> \<not> skip_entry visited x d h \<Longrightarrow>
        I (snd (getitem g x))
          (pq' @ map (\<lambda>ed. (d + distance ed, h + 1, dest ed, p @ [dest ed]))
                   (filter (\<lambda>ed. aircraft ed = ac) (adj g x)))
          (visited(x \<mapsto> (d, h)))"
    and Q_empty: "\<And>g visited. I g [] visited \<Longrightarrow> Q None g"
    and Q_found: "\<And>g pq visited d h p pq'. I g pq visited \<Longrightarrow> pq \<noteq> [] \<Longrightarrow>
        heappop pq = ((d, h, e, p), pq') \<Longrightarrow> Q (Some (d, p)) g"
  shows "Q r g'"
proof -
  have "e' = e \<longrightarrow> ac' = ac \<longrightarrow> I g pq visited \<longrightarrow> Q (fst y) (snd y)"
    if "least_distance_loop e' ac' g pq visited = Some y" for e' ac' g pq visited y
  proof (rule least_distance_loop.raw_induct
      [where P = "\<lambda>e' ac' g pq visited y. e' = e \<longrightarrow> ac' = ac \<longrightarrow> I g pq visited \<longrightarrow> Q (fst y) (snd y)",
        OF _ that], goal_cases)
    case (1 loop e' ac' g pq visited y)
    show ?case
    proof (intro impI)
      assume eq: "e' = e" "ac' = ac" and I: "I g pq visited"
      show "Q (fst y) (snd y)"
      proof (cases "pq = []")
        case True
        with 1(2) I show ?thesis by (auto intro: Q_empty)
      next
        case False
        obtain d h x p pq' where pop: "heappop pq = ((d, h, x, p), pq')"
          by (metis prod_cases4 surj_pair)
        consider (found) "x = e" | (skip) "x \<noteq> e" "skip_entry visited x d h"
          | (expand) "x \<noteq> e" "\<not> skip_entry visited x d h"
          by blast
        then show ?thesis
        proof cases
          case found
          with 1(2) False pop eq have "y = (Some (d, p), g)" by simp
          with found I False pop show ?thesis by (auto intro: Q_found)
        next
          case skip
          with 1(2) False pop eq have "loop e ac g pq' visited = Some y" by simp
          moreover have "I g pq' visited"
            using I False pop skip by (rule I_skip)
          ultimately show ?thesis using 1(1) by blast
        next
          case expand
          let ?pq = "pq' @ map (\<lambda>ed. (d + distance ed, h + 1, dest ed, p @ [dest ed]))
                   (filter (\<lambda>ed. aircraft ed = ac) (adj g x))"
          from 1(2) False pop eq expand
          have "loop e ac (snd (getitem g x)) ?pq (visited(x \<mapsto> (d, h))) = Some y"
            by (simp add: push_edges_eq getitem_fst [symmetric] split: prod.splits)
          moreover have "I (snd (getitem g x)) ?pq (visited(x \<mapsto> (d, h)))"
            using I False pop expand by (rule I_expand)
          ultimately show ?thesis using 1(1) by blast
        qed
      qed
    qed
  qed
  from this [OF run] init show ?thesis by simp
qed


lemma fewest_legs_loop_rule:
  assumes run: "fewest_legs_loop e ac g queue visited = Some (r, g')"
    and init: "I g queue visited"
    and I_skip: "\<And>g x p rest visited. I g ((x, p) # rest) visited \<Longrightarrow> x \<noteq> e \<Longrightarrow>
        x \<in> visited \<Longrightarrow> I g rest visited"
    and I_expand: "\<And>g x p rest visited. I g ((x, p) # rest) visited \<Longrightarrow> x \<noteq> e \<Longrightarrow>
        x \<notin> visited \<Longrightarrow>
        I (snd (getitem g x))
          (rest @ map (\<lambda>ed. (dest ed, p @ [dest ed])) (filter (\<lambda>ed. aircraft ed = ac) (adj g x)))
          (insert x visited)"
    and Q_empty: "\<And>g visited. I g [] visited \<Longrightarrow> Q None g"
    and Q_found: "\<And>g p rest visited. I g ((e, p) # rest) visited \<Longrightarrow> Q (Some p) g"
  shows "Q r g'"
proof -
  have "e' = e \<longrightarrow> ac' = ac \<longrightarrow> I g queue visited \<longrightarrow> Q (fst y) (snd y)"
    if "fewest_legs_loop e' ac' g queue visited = Some y" for e' ac' g queue visited y
  proof (rule fewest_legs_loop.raw_induct
      [where P = "\<lambda>e' ac' g queue visited y. e' = e \<longrightarrow> ac' = ac \<longrightarrow> I g queue visited \<longrightarrow> Q (fst y) (snd y)",
        OF _ that], goal_cases)
    case (1 loop e' ac' g queue visited y)
    show ?case
    proof (intro impI)
      assume eq: "e' = e" "ac' = ac" and I: "I g queue visited"
      show "Q (fst y) (snd y)"
      proof (cases queue)
        case Nil
        with 1(2) I show ?thesis by (auto intro: Q_empty)
      next
        case (Cons a rest)
        obtain x p where a: "a = (x, p)" by (cases a)
        note queue = Cons [unfolded a]
        consider (found) "x = e" | (skip) "x \<noteq> e" "x \<in> visited"
          | (expand) "x \<noteq> e" "x \<notin> visited"
          by blast
        then show ?thesis
        proof cases
          case found
          with 1(2) queue eq have "y = (Some p, g)" by simp
          with found I queue show ?thesis by (auto intro: Q_found)
        next
          case skip
          with 1(2) queue eq have "loop e ac g rest visited = Some y" by simp
          moreover have "I g rest visited"
            using I skip unfolding queue by (rule I_skip)
          ultimately show ?thesis using 1(1) by blast
        next
          case expand
          let ?q = "rest @ map (\<lambda>ed. (dest ed, p @ [dest ed])) (filter (\<lambda>ed. aircraft ed = ac) (adj g x))"
          from 1(2) queue eq expand
          have "loop e ac (snd (getitem g x)) ?q (insert x visited) = Some y"
            by (simp add: enqueue_edges_eq getitem_fst [symmetric] split: prod.splits)
          moreover have "I (snd (getitem g x)) ?q (insert x visited)"
            using I expand unfolding queue by (rule I_expand)
          ultimately show ?thesis using 1(1) by blast
        qed
      qed
    qed
  qed
  from this [OF run] init show ?thesis by simp
qed

text \<open>The result of a search depends on the graph only through its lookups.\<close>

lemma fewest_legs_loop_cong:
  assumes "fewest_legs_loop e ac g queue visited = Some (r, g')" "adj g2 = adj g"
  shows "\<exists>g2'. fewest_legs_loop e ac g2 queue visited = Some (r, g2')"
proof (rule fewest_legs_loop_rule
    [where I = "\<lambda>g q v. \<exists>h. adj h = adj g \<and>
        fewest_legs_loop e ac g2 queue visited = fewest_legs_loop e ac h q v"
      and Q = "\<lambda>r g. \<exists>g2'. fewest_legs_loop e ac g2 queue visited = Some (r, g2')",
      OF assms(1)], goal_cases)
  case 1
  show ?case using assms(2) by blast
next
  case (2 g x p rest v)
  then obtain h where h: "adj h = adj g"
    "fewest_legs_loop e ac g2 queue visited = fewest_legs_loop e ac h ((x, p) # rest) v"
    by blast
  from h(2) have "fewest_legs_loop e ac g2 queue visited = fewest_legs_loop e ac h rest v"
    by (simp only: fewest_legs_loop_skip [OF 2(2,3)])
  with h(1) show ?case by blast
next
  case (3 g x p rest v)
  then obtain h where h: "adj h = adj g"
    "fewest_legs_loop e ac g2 queue visited = fewest_legs_loop e ac h ((x, p) # rest) v"
    by blast
  have "adj (snd (getitem h x)) = adj (snd (getitem g x))"
    by (simp only: getitem_snd h(1))
  moreover from h(2) have "fewest_legs_loop e ac g2 queue visited =
      fewest_legs_loop e ac (snd (getitem h x))
        (rest @ map (\<lambda>ed. (dest ed, p @ [dest ed])) (filter (\<lambda>ed. aircraft ed = ac) (adj g x)))
        (insert x v)"
    by (simp only: fewest_legs_loop_expand [OF 3(2,3)] h(1))
  ultimately show ?case by blast
next
  case (4 g v)
  then obtain h where
    "fewest_legs_loop e ac g2 queue visited = fewest_legs_loop e ac h [] v"
    by blast
  then show ?case by (simp only: fewest_legs_loop_Nil) blast
next
  case (5 g p rest v)
  then obtain h where
    "fewest_legs_loop e ac g2 queue visited = fewest_legs_loop e ac h ((e, p) # rest) v"
    by blast
  then show ?case by (simp only: fewest_legs_loop_found) blast
qed

lemma least_distance_loop_cong:
  assumes "least_distance_loop e ac g pq visited = Some (r, g')" "adj g2 = adj g"
  shows "\<exists>g2'. least_distance_loop e ac g2 pq visited = Some (r, g2')"
proof (rule least_distance_loop_rule
    [where I = "\<lambda>g q v. \<exists>h. adj h = adj g \<and>
        least_distance_loop e ac g2 pq visited = least_distance_loop e ac h q v"
      and Q = "\<lambda>r g. \<exists>g2'. least_distance_loop e ac g2 pq visited = Some (r, g2')",
      OF assms(1)], goal_cases)
  case 1
  show ?case using assms(2) by blast
next
  case (2 g q v d h x p pq')
  then obtain k where k: "adj k = adj g"
    "least_distance_loop e ac g2 pq visited = least_distance_loop e ac k q v"
    by blast
  from k(2) have "least_distance_loop e ac g2 pq visited = least_distance_loop e ac k pq' v"
    by (simp only: least_distance_loop_skip [OF 2(2-5)])
  with k(1) show ?case by blast
next
  case (3 g q v d h x p pq')
  then obtain k where k: "adj k = adj g"
    "least_distance_loop e ac g2 pq visited = least_distance_loop e ac k q v"
    by blast
  have "adj (snd (getitem k x)) = adj (snd (getitem g x))"
    by (simp only: getitem_snd k(1))
  moreover from k(2) have "least_distance_loop e ac g2 pq visited =
      least_distance_loop e ac (snd (getitem k x))
        (pq' @ map (\<lambda>ed. (d + distance ed, h + 1, dest ed, p @ [dest ed]))
                 (filter (\<lambda>ed. aircraft ed = ac) (adj g x)))
        (v(x \<mapsto> (d, h)))"
    by (simp only: least_distance_loop_expand [OF 3(2-5)] k(1))
  ultimately show ?case by blast
next
  case (4 g v)
  then obtain k where
    "least_distance_loop e ac g2 pq visited = least_distance_loop e ac k [] v"
    by blast
  then show ?case by (simp only: least_distance_loop_Nil) blast
next
  case (5 g q v d h p pq')
  then obtain k where
    "least_distance_loop e ac g2 pq visited = least_distance_loop e ac k q v"
    by blast
  then show ?case by (simp only: least_distance_loop_found [OF 5(2,3)]) blast
qed

lemma fewest_legs_loop_adj:
  assumes "fewest_legs_loop e ac g queue visited = Some (r, g')"
  shows "adj g' = adj g"
  by (rule fewest_legs_loop_rule
      [where I = "\<lambda>h q v. adj h = adj g" and Q = "\<lambda>r h. adj h = adj g", OF assms])
     (simp_all add: getitem_snd)

lemma least_distance_loop_adj:
  assumes "least_distance_loop e ac g pq visited = Some (r, g')"
  shows "adj g' = adj g"
  by (rule least_distance_loop_rule
      [where I = "\<lambda>h q v. adj h = adj g" and Q = "\<lambda>r h. adj h = adj g", OF assms])
     (simp_all add: getitem_snd)

lemma dj_paths_expand:
  assumes paths: "dj_paths g ac s pq" and pop: "pq \<noteq> []" "heappop pq = ((d, h, x, p), pq')"
  shows "dj_paths g ac s
    (pq' @ map (\<lambda>ed. (d + distance ed, h + 1, dest ed, p @ [dest ed]))
             (filter (\<lambda>ed. aircraft ed = ac) (adj g x)))"
  unfolding dj_paths_def
proof
  note m = heappop_min [OF pop]
  fix a
  assume "a \<in> set (pq' @ map (\<lambda>ed. (d + distance ed, h + 1, dest ed, p @ [dest ed]))
             (filter (\<lambda>ed. aircraft ed = ac) (adj g x)))"
  then consider "a \<in> set pq'"
    | ed where "ed \<in> set (adj g x)" "aircraft ed = ac"
        "a = (d + distance ed, h + 1, dest ed, p @ [dest ed])"
    by auto
  then show "\<exists>es. walk g ac s es (entry_airport a) \<and> entry_path a = airports s es \<and>
      entry_key a = (total_distance es, length es)"
  proof cases
    case 1
    with m(3) paths show ?thesis unfolding dj_paths_def by blast
  next
    case (2 ed)
    from paths m(1) have "\<exists>es. walk g ac s es (entry_airport (d, h, x, p)) \<and>
        entry_path (d, h, x, p) = airports s es \<and>
        entry_key (d, h, x, p) = (total_distance es, length es)"
      unfolding dj_paths_def by (rule bspec)
    then obtain es where es: "walk g ac s es x" "p = airports s es"
      "d = total_distance es" "h = length es"
      by auto
    have "walk g ac s (es @ [ed]) (entry_airport a) \<and> entry_path a = airports s (es @ [ed]) \<and>
        entry_key a = (total_distance (es @ [ed]), length (es @ [ed]))"
      using es 2 by (simp add: walk_snoc airports_def)
    then show ?thesis ..
  qed
qed

lemma least_distance_loop_paths:
  assumes run: "least_distance_loop e ac g pq visited = Some (Some (d, p), g')"
    and g: "adj g = adj g0" and paths: "dj_paths g0 ac s pq"
  shows "\<exists>es. walk g0 ac s es e \<and> p = airports s es \<and> d = total_distance es"
proof -
  have "\<forall>d p. Some (d, p) = Some (d', p') \<longrightarrow>
      (\<exists>es. walk g0 ac s es e \<and> p = airports s es \<and> d = total_distance es)"
    if "least_distance_loop e ac g pq visited = Some (Some (d', p'), g')" for d' p'
  proof (rule least_distance_loop_rule
      [where I = "\<lambda>h q v. adj h = adj g0 \<and> dj_paths g0 ac s q"
        and Q = "\<lambda>r h. \<forall>d p. Some (d, p) = r \<longrightarrow>
          (\<exists>es. walk g0 ac s es e \<and> p = airports s es \<and> d = total_distance es)",
        OF that], goal_cases)
    case 1
    show ?case using g paths by simp
  next
    case (2 k q v d h x p pq')
    from heappop_min(3) [OF 2(2,3)] 2(1) show ?case
      unfolding dj_paths_def by blast
  next
    case (3 k q v d h x p pq')
    then have "adj k = adj g0" "dj_paths g0 ac s q" by simp_all
    from dj_paths_expand [OF this(2) 3(2,3)] this(1) show ?case
      by (simp add: getitem_snd)
  next
    case (4 k v)
    show ?case by simp
  next
    case (5 k q v d h p pq')
    then have "dj_paths g0 ac s q" by simp
    with heappop_min(1) [OF 5(2,3)]
    have "\<exists>es. walk g0 ac s es (entry_airport (d, h, e, p)) \<and>
        entry_path (d, h, e, p) = airports s es \<and>
        entry_key (d, h, e, p) = (total_distance es, length es)"
      unfolding dj_paths_def by (rule bspec [rotated])
    then show ?case by auto
  qed
  from this [OF run] show ?thesis by simp
qed

lemma explored_walk:
  assumes "\<forall>v \<in> D. \<forall>ed \<in> set (adj g v). aircraft ed = ac \<longrightarrow> dest ed \<in> D"
  shows "x \<in> D \<Longrightarrow> walk g ac x ws y \<Longrightarrow> y \<in> D"
proof (induction ws arbitrary: x)
  case Nil
  then show ?case by simp
next
  case (Cons ed ws)
  then have "dest ed \<in> D" using assms by auto
  with Cons show ?case by auto
qed

lemma dj_explored_skip:
  assumes ex: "dj_explored g ac s e pq visited"
    and pop: "pq \<noteq> []" "heappop pq = ((d, h, x, p), pq')"
    and sk: "skip_entry visited x d h"
  shows "dj_explored g ac s e pq' visited"
proof -
  note m = heappop_min [OF pop]
  from sk have x: "x \<in> dom visited"
    by (auto simp: skip_entry_iff)
  have sub: "entry_airport ` set pq \<union> dom visited \<subseteq> entry_airport ` set pq' \<union> dom visited"
  proof
    fix y assume "y \<in> entry_airport ` set pq \<union> dom visited"
    then consider "y \<in> dom visited" | a where "a \<in> set pq" "y = entry_airport a" by blast
    then show "y \<in> entry_airport ` set pq' \<union> dom visited"
    proof cases
      case 1
      then show ?thesis by simp
    next
      case (2 a)
      show ?thesis
      proof (cases "a = (d, h, x, p)")
        case True
        with 2(2) x show ?thesis by simp
      next
        case False
        with 2(1) m(4) have "a \<in> set pq'" by blast
        with 2(2) show ?thesis by blast
      qed
    qed
  qed
  with ex show ?thesis
    unfolding dj_explored_def by blast
qed

lemma dj_explored_expand:
  assumes ex: "dj_explored g ac s e pq visited"
    and pop: "pq \<noteq> []" "heappop pq = ((d, h, x, p), pq')"
    and x: "x \<noteq> e"
  defines "new \<equiv> map (\<lambda>ed. (d + distance ed, h + 1, dest ed, p @ [dest ed]))
                      (filter (\<lambda>ed. aircraft ed = ac) (adj g x))"
  shows "dj_explored g ac s e (pq' @ new) (visited(x \<mapsto> (d, h)))"
proof -
  note m = heappop_min [OF pop]
  let ?D = "entry_airport ` set pq \<union> dom visited"
  let ?D' = "entry_airport ` set (pq' @ new) \<union> dom (visited(x \<mapsto> (d, h)))"
  have sub: "?D \<subseteq> ?D'"
  proof
    fix y assume "y \<in> ?D"
    then consider "y \<in> dom visited" | a where "a \<in> set pq" "y = entry_airport a" by blast
    then show "y \<in> ?D'"
    proof cases
      case 1
      then show ?thesis by simp
    next
      case (2 a)
      show ?thesis
      proof (cases "a = (d, h, x, p)")
        case True
        with 2(2) show ?thesis by simp
      next
        case False
        with 2(1) m(4) have "a \<in> set (pq' @ new)" by auto
        with 2(2) show ?thesis by blast
      qed
    qed
  qed
  have new: "dest ed \<in> ?D'" if "ed \<in> set (adj g x)" "aircraft ed = ac" for ed
  proof -
    from that have "(d + distance ed, h + 1, dest ed, p @ [dest ed]) \<in> set (pq' @ new)"
      by (auto simp: new_def)
    then have "entry_airport (d + distance ed, h + 1, dest ed, p @ [dest ed]) \<in> ?D'"
      by blast
    then show ?thesis by simp
  qed
  have "(visited(x \<mapsto> (d, h))) e = None"
    using ex x unfolding dj_explored_def by simp
  moreover have "s \<in> ?D'"
    using ex sub unfolding dj_explored_def by blast
  moreover have "dest ed \<in> ?D'"
    if "v \<in> dom (visited(x \<mapsto> (d, h)))" "ed \<in> set (adj g v)" "aircraft ed = ac" for v ed
  proof (cases "v = x")
    case True
    with that new show ?thesis by simp
  next
    case False
    with that(1) have "v \<in> dom visited" by simp
    with ex that(2,3) have "dest ed \<in> ?D"
      unfolding dj_explored_def by blast
    with sub show ?thesis by blast
  qed
  ultimately show ?thesis
    unfolding dj_explored_def by blast
qed

lemma least_distance_loop_none:
  assumes run: "least_distance_loop e ac g pq visited = Some (None, g')"
    and ex: "dj_explored g ac s e pq visited"
  shows "\<not> walk g ac s ws e"
proof -
  have "r = None \<longrightarrow> \<not> walk g ac s ws e"
    if "least_distance_loop e ac g pq visited = Some (r, g')" for r
  proof (rule least_distance_loop_rule
      [where I = "\<lambda>h q v. adj h = adj g \<and> dj_explored g ac s e q v"
        and Q = "\<lambda>r h. r = None \<longrightarrow> \<not> walk g ac s ws e", OF that], goal_cases)
    case 1
    show ?case using ex by simp
  next
    case (2 k q v d h x p pq')
    then have "adj k = adj g" and "dj_explored g ac s e q v" by simp_all
    from this(1) dj_explored_skip [OF this(2) 2(2,3,5)] show ?case
      by simp
  next
    case (3 k q v d h x p pq')
    then have k: "adj k = adj g" and "dj_explored g ac s e q v" by simp_all
    from dj_explored_expand [OF this(2) 3(2,3,4)] show ?case
      by (simp add: getitem_snd k)
  next
    case (4 k v)
    then have ex: "dj_explored g ac s e [] v" by simp
    then have "s \<in> dom v" "e \<notin> dom v"
      "\<forall>u \<in> dom v. \<forall>ed \<in> set (adj g u). aircraft ed = ac \<longrightarrow> dest ed \<in> dom v"
      unfolding dj_explored_def by auto
    with explored_walk [of "dom v" g ac s ws e] show ?case by blast
  next
    case (5 k q v d h p pq')
    show ?case by simp
  qed
  from this [OF run] show ?thesis by simp
qed

section \<open>Results of the least-distance search\<close>

lemma least_distance_total:
  assumes "nonneg_distances g ac"
  shows "\<exists>r g'. least_distance g s e ac = Some (r, g') \<and> adj g' = adj g \<and> dj_post g ac s e r"
  unfolding least_distance_def
  by (rule least_distance_loop_total [OF assms dj_inv_init refl])

lemma airports_length_eq: "airports s es = airports s fs \<Longrightarrow> length es = length fs"
  by (simp add: airports_def) (metis length_map)

text \<open>
  On every graph, a pair (distance, path) returned by \<open>least_distance\<close> is a walk
  from \<open>s\<close> to \<open>e\<close> along edges of the requested aircraft, with the sum of its edge
  distances. When no edge of that aircraft has a negative distance, no such walk has a smaller
  total distance, and none of equal distance has fewer legs.
\<close>

lemma least_distance_optimal:
  assumes "least_distance g s e ac = Some (Some (d, p), g')"
  shows "hd p = s \<and> last p = e \<and>
    (\<exists>es. walk g ac s es e \<and> p = airports s es \<and> length p = length es + 1 \<and>
       d = total_distance es \<and>
       (nonneg_distances g ac \<longrightarrow>
          (\<forall>ws. walk g ac s ws e \<longrightarrow>
             d \<le> total_distance ws \<and> (total_distance ws = d \<longrightarrow> length es \<le> length ws))))"
proof -
  have "dj_paths g ac s [(0, 0, s, [s])]"
    using dj_inv_init [of g ac s e] by (simp add: dj_inv_def)
  with assms obtain es where es: "walk g ac s es e" "p = airports s es" "d = total_distance es"
    unfolding least_distance_def using least_distance_loop_paths [OF _ refl] by blast
  have "d \<le> total_distance ws \<and> (total_distance ws = d \<longrightarrow> length es \<le> length ws)"
    if nn: "nonneg_distances g ac" and ws: "walk g ac s ws e" for ws
  proof -
    from least_distance_total [OF nn, of s e] assms have "dj_post g ac s e (Some (d, p))"
      by auto
    then obtain fs where fs: "p = airports s fs"
      "\<forall>ws. walk g ac s ws e \<longrightarrow>
         d \<le> total_distance ws \<and> (total_distance ws = d \<longrightarrow> length fs \<le> length ws)"
      by (auto simp: dj_post_def)
    from fs(1) es(2) have "airports s fs = airports s es" by simp
    then have "length fs = length es"
      by (rule airports_length_eq)
    with fs(2) ws show ?thesis by simp
  qed
  moreover have "hd p = s" "length p = length es + 1"
    using es(2) by (simp_all add: airports_def)
  moreover have "last p = e"
    using es(1,2) by (simp add: walk_last)
  ultimately show ?thesis using es by blast
qed

text \<open>
  With a negative distance the first extraction of the end airport need not be a least
  distance: the search returns 1 for A-E, while A-B-E totals \<open>- 3\<close>.
\<close>

lemma least_distance_not_least:
  "least_distance neg_graph ''A'' ''E'' ''X'' = Some (Some (1, [''A'', ''E'']), neg_graph) \<and>
   walk neg_graph ''X'' ''A''
     [\<lparr>dest = ''B'', aircraft = ''X'', distance = 2\<rparr>,
      \<lparr>dest = ''E'', aircraft = ''X'', distance = - 5\<rparr>] ''E'' \<and>
   total_distance
     [\<lparr>dest = ''B'', aircraft = ''X'', distance = 2\<rparr>,
      \<lparr>dest = ''E'', aircraft = ''X'', distance = - 5\<rparr>] < 1"
  by (simp add: neg_graph_def init_def add_route_def getitem_def adj_def
      least_distance_def least_distance_loop.simps heappop_def heappush_def skip_entry_def)

section \<open>No route, termination and repeated calls\<close>

lemma neg_loop_eq: "neg_loop = [(''A'', [\<lparr>dest = ''A'', aircraft = ''X'', distance = - 1\<rparr>])]"
  by (simp add: neg_loop_def init_def add_route_def getitem_def)

lemma heappop_single: "heappop [a] = (a, [])"
  by (simp add: heappop_def)

lemma neg_loop_never_returns:
  "least_distance_loop ''B'' ''X'' neg_loop [(d, h, ''A'', p)] visited \<noteq> Some (r, g')"
  if "\<forall>L. visited ''A'' = Some L \<longrightarrow> d < fst L"
proof
  assume run: "least_distance_loop ''B'' ''X'' neg_loop [(d, h, ''A'', p)] visited = Some (r, g')"
  show False
  proof (rule least_distance_loop_rule
      [where I = "\<lambda>g q v. g = neg_loop \<and>
          (\<exists>d h p. q = [(d, h, ''A'', p)] \<and> (\<forall>L. v ''A'' = Some L \<longrightarrow> d < fst L))"
        and Q = "\<lambda>r g. False", OF run], goal_cases)
    case 1
    show ?case using that by blast
  next
    case (2 g q v d h x p pq')
    then show ?case
      by (auto simp: heappop_single skip_entry_def split: option.splits)
  next
    case (3 g q v d h x p pq')
    then obtain d0 h0 p0 where q: "g = neg_loop" "q = [(d0, h0, ''A'', p0)]"
      by blast
    with 3(3) have eq: "d = d0" "h = h0" "x = ''A''" "p = p0" "pq' = []"
      by (simp_all add: heappop_single)
    show ?case
      unfolding q(1) eq
      by (simp add: neg_loop_eq getitem_def adj_def)
  next
    case (4 g v)
    then show ?case by simp
  next
    case (5 g q v d h p pq')
    then show ?case by (auto simp: heappop_single)
  qed
qed

text \<open>
  On a self-loop of negative distance the two searches part: no route leads from A to B, and
  \<open>fewest_legs\<close> says so, but \<open>least_distance\<close> records an ever smaller distance for A and
  never returns.
\<close>

lemma least_distance_never_returns:
  "fewest_legs neg_loop ''A'' ''B'' ''X'' = Some (None, neg_loop) \<and>
   least_distance neg_loop ''A'' ''B'' ''X'' = None"
proof
  show "fewest_legs neg_loop ''A'' ''B'' ''X'' = Some (None, neg_loop)"
    by (simp add: neg_loop_eq getitem_def fewest_legs_def fewest_legs_loop.simps)
  have "least_distance neg_loop ''A'' ''B'' ''X'' \<noteq> Some y" for y
    unfolding least_distance_def
    using neg_loop_never_returns [of Map.empty 0 0 "[''A'']" "fst y" "snd y"] by simp
  then show "least_distance neg_loop ''A'' ''B'' ''X'' = None"
    by (cases "least_distance neg_loop ''A'' ''B'' ''X''") auto
qed


lemma fewest_legs_none_iff:
  "(\<exists>g'. fewest_legs g s e ac = Some (None, g')) \<longleftrightarrow> (\<forall>es. \<not> walk g ac s es e)"
proof
  assume "\<exists>g'. fewest_legs g s e ac = Some (None, g')"
  with fewest_legs_total [of g s e ac] have "bfs_post g ac s e None" by auto
  then show "\<forall>es. \<not> walk g ac s es e" by (simp add: bfs_post_def)
next
  assume no: "\<forall>es. \<not> walk g ac s es e"
  from fewest_legs_total [of g s e ac] obtain r g' where
    r: "fewest_legs g s e ac = Some (r, g')" "bfs_post g ac s e r" by blast
  from r(2) no have "r = None"
    by (cases r) (auto simp: bfs_post_def)
  with r(1) show "\<exists>g'. fewest_legs g s e ac = Some (None, g')" by blast
qed

lemma least_distance_none_walk:
  assumes "least_distance g s e ac = Some (None, g')" "s \<noteq> e"
  shows "\<not> walk g ac s es e"
proof -
  have "dj_explored g ac s e [(0, 0, s, [s])] Map.empty"
    by (simp add: dj_explored_def)
  with assms(1) show ?thesis
    unfolding least_distance_def by (rule least_distance_loop_none)
qed

lemma least_distance_none_nonneg:
  assumes "nonneg_distances g ac" "\<forall>es. \<not> walk g ac s es e"
  shows "\<exists>g'. least_distance g s e ac = Some (None, g')"
proof -
  from least_distance_total [OF assms(1), of s e] obtain r g' where
    r: "least_distance g s e ac = Some (r, g')" "dj_post g ac s e r" by blast
  from r(2) assms(2) have "r = None"
    by (cases r) (auto simp: dj_post_def)
  with r(1) show ?thesis by blast
qed

lemma no_matching_edges:
  assumes "s \<noteq> e" "filter (\<lambda>ed. aircraft ed = ac) (adj g s) = []"
  shows "fewest_legs g s e ac = Some (None, snd (getitem g s))"
    and "least_distance g s e ac = Some (None, snd (getitem g s))"
proof -
  show "fewest_legs g s e ac = Some (None, snd (getitem g s))"
    using assms
    by (simp add: fewest_legs_def fewest_legs_loop_expand fewest_legs_loop_Nil)
  have "heappop [(0, 0, s, [s])] = ((0, 0, s, [s]), [])"
    by (simp add: heappop_def)
  from least_distance_loop_expand [OF _ this, of e Map.empty ac g] assms
  show "least_distance g s e ac = Some (None, snd (getitem g s))"
    by (simp add: least_distance_def skip_entry_def least_distance_loop_Nil)
qed

text \<open>
  On every graph, for different start and end airports: \<open>fewest_legs\<close> returns
  \<open>None\<close> exactly when no walk along edges of the requested aircraft leads from \<open>s\<close> to
  \<open>e\<close>; when \<open>least_distance\<close> returns \<open>None\<close> there is no such walk, and when there is
  none and no edge of that aircraft has a negative distance it returns \<open>None\<close>. Neither search
  returns an empty path, and both return \<open>None\<close> when the start has no edge of that aircraft.
\<close>

lemma no_route_iff:
  assumes "s \<noteq> e"
  shows "((\<exists>g'. fewest_legs g s e ac = Some (None, g')) \<longleftrightarrow> (\<forall>es. \<not> walk g ac s es e)) \<and>
    ((\<exists>g'. least_distance g s e ac = Some (None, g')) \<longrightarrow> (\<forall>es. \<not> walk g ac s es e)) \<and>
    (nonneg_distances g ac \<longrightarrow> (\<forall>es. \<not> walk g ac s es e) \<longrightarrow>
       (\<exists>g'. least_distance g s e ac = Some (None, g'))) \<and>
    (\<forall>g'. fewest_legs g s e ac \<noteq> Some (Some [], g')) \<and>
    (\<forall>d g'. least_distance g s e ac \<noteq> Some (Some (d, []), g')) \<and>
    (filter (\<lambda>ed. aircraft ed = ac) (adj g s) = [] \<longrightarrow>
       (\<exists>g'. fewest_legs g s e ac = Some (None, g')) \<and>
       (\<exists>g'. least_distance g s e ac = Some (None, g')))"
proof (intro conjI)
  show "(\<exists>g'. fewest_legs g s e ac = Some (None, g')) \<longleftrightarrow> (\<forall>es. \<not> walk g ac s es e)"
    by (rule fewest_legs_none_iff)
  show "(\<exists>g'. least_distance g s e ac = Some (None, g')) \<longrightarrow> (\<forall>es. \<not> walk g ac s es e)"
    using least_distance_none_walk [OF _ assms] by blast
  show "nonneg_distances g ac \<longrightarrow> (\<forall>es. \<not> walk g ac s es e) \<longrightarrow>
       (\<exists>g'. least_distance g s e ac = Some (None, g'))"
    using least_distance_none_nonneg by blast
  show "\<forall>g'. fewest_legs g s e ac \<noteq> Some (Some [], g')"
  proof (intro allI notI)
    fix g' assume "fewest_legs g s e ac = Some (Some [], g')"
    with fewest_legs_total [of g s e ac] have "bfs_post g ac s e (Some [])" by auto
    then show False by (simp add: bfs_post_def airports_def)
  qed
  show "\<forall>d g'. least_distance g s e ac \<noteq> Some (Some (d, []), g')"
  proof (intro allI notI)
    fix d g' assume run: "least_distance g s e ac = Some (Some (d, []), g')"
    have "dj_paths g ac s [(0, 0, s, [s])]"
      using dj_inv_init [of g ac s e] by (simp add: dj_inv_def)
    with run obtain es where "[] = airports s es"
      unfolding least_distance_def using least_distance_loop_paths [OF _ refl] by blast
    then show False by (simp add: airports_def)
  qed
  show "filter (\<lambda>ed. aircraft ed = ac) (adj g s) = [] \<longrightarrow>
       (\<exists>g'. fewest_legs g s e ac = Some (None, g')) \<and>
       (\<exists>g'. least_distance g s e ac = Some (None, g'))"
    using no_matching_edges [OF assms] by blast
qed

lemma one_route_eq: "one_route = [(''A'', [\<lparr>dest = ''B'', aircraft = ''X'', distance = 100\<rparr>])]"
  by (simp add: one_route_def init_def add_route_def getitem_def)

lemma positive_nonneg: "positive_distances g \<Longrightarrow> nonneg_distances g ac"
  unfolding positive_distances_def nonneg_distances_def by (meson less_imp_le)

text \<open>
  C7. \<open>fewest_legs\<close> returns on every graph, and \<open>least_distance\<close> returns on every graph
  whose distances are all strictly positive. In both proofs every expansion removes an airport
  from the finitely many that are not yet expanded, and every skipped entry shortens the frontier.
\<close>

theorem searches_terminate:
  "(\<exists>r g'. fewest_legs g s e ac = Some (r, g')) \<and>
   (positive_distances g \<longrightarrow> (\<exists>r g'. least_distance g s e ac = Some (r, g')))"
  using fewest_legs_total [of g s e ac]
    least_distance_total [OF positive_nonneg, where g = g and s = s and e = e and ac = ac]
  by blast

theorem searches_terminate_witness:
  "positive_distances tie_graph \<and>
   (\<exists>r g'. fewest_legs tie_graph ''A'' ''D'' ''X'' = Some (r, g')) \<and>
   (\<exists>r g'. least_distance tie_graph ''A'' ''D'' ''X'' = Some (r, g'))"
proof -
  have "positive_distances tie_graph"
    by (simp add: positive_distances_def tie_graph_def init_def add_route_def getitem_def)
  with searches_terminate [of tie_graph "''A''" "''D''" "''X''"] show ?thesis by blast
qed

text \<open>
  C8. A search is a function of its arguments, and calling it again on the graph that the first
  call left behind gives the same result: the keys that a call inserts do not change any lookup.
\<close>

theorem searches_deterministic:
  "(fewest_legs g s e ac = Some (r1, g1) \<longrightarrow> (\<exists>g1'. fewest_legs g1 s e ac = Some (r1, g1'))) \<and>
   (least_distance g s e ac = Some (r2, g2) \<longrightarrow> (\<exists>g2'. least_distance g2 s e ac = Some (r2, g2')))"
proof (intro conjI impI)
  assume run: "fewest_legs g s e ac = Some (r1, g1)"
  then have "adj g1 = adj g"
    unfolding fewest_legs_def by (rule fewest_legs_loop_adj)
  with run show "\<exists>g1'. fewest_legs g1 s e ac = Some (r1, g1')"
    unfolding fewest_legs_def by (rule fewest_legs_loop_cong)
next
  assume run: "least_distance g s e ac = Some (r2, g2)"
  then have "adj g2 = adj g"
    unfolding least_distance_def by (rule least_distance_loop_adj)
  with run show "\<exists>g2'. least_distance g2 s e ac = Some (r2, g2')"
    unfolding least_distance_def by (rule least_distance_loop_cong)
qed

theorem searches_deterministic_witness:
  "fewest_legs one_route ''A'' ''C'' ''X'' = Some (None, one_route @ [(''B'', [])]) \<and>
   (\<exists>g'. fewest_legs (one_route @ [(''B'', [])]) ''A'' ''C'' ''X'' = Some (None, g')) \<and>
   least_distance one_route ''A'' ''C'' ''X'' = Some (None, one_route @ [(''B'', [])]) \<and>
   (\<exists>g'. least_distance (one_route @ [(''B'', [])]) ''A'' ''C'' ''X'' = Some (None, g'))"
proof -
  have fl: "fewest_legs one_route ''A'' ''C'' ''X'' = Some (None, one_route @ [(''B'', [])])"
    by (simp add: one_route_eq getitem_def fewest_legs_def fewest_legs_loop.simps)
  have ld: "least_distance one_route ''A'' ''C'' ''X'' = Some (None, one_route @ [(''B'', [])])"
    by (simp add: one_route_eq getitem_def least_distance_def least_distance_loop.simps
        heappop_def heappush_def skip_entry_def)
  from fl ld
    searches_deterministic [of one_route "''A''" "''C''" "''X''" None "one_route @ [(''B'', [])]"
      None "one_route @ [(''B'', [])]"]
  show ?thesis by blast
qed

section \<open>The searches on graphs with positive distances\<close>

lemma tie_graph_positive: "positive_distances tie_graph"
  by (simp add: positive_distances_def tie_graph_def init_def add_route_def getitem_def)

lemma one_route_positive: "positive_distances one_route"
  by (simp add: positive_distances_def one_route_eq)

text \<open>
  C1. On a graph whose distances are strictly positive, as the data model has them: a pair
  (distance, path) returned by \<open>least_distance\<close> starts at \<open>s\<close>, ends at \<open>e\<close>, is the
  list of airports of a walk along edges of the requested aircraft, its distance is the sum of
  the distances of those edges, no walk from \<open>s\<close> to \<open>e\<close> along such edges has a smaller
  total distance, and none of the same total distance has fewer legs.
\<close>

theorem least_distance_shortest:
  assumes "positive_distances g" and "least_distance g s e ac = Some (Some (d, p), g')"
  shows "hd p = s \<and> last p = e \<and>
    (\<exists>es. walk g ac s es e \<and> p = airports s es \<and> length p = length es + 1 \<and>
       d = total_distance es \<and>
       (\<forall>ws. walk g ac s ws e \<longrightarrow>
          d \<le> total_distance ws \<and> (total_distance ws = d \<longrightarrow> length es \<le> length ws)))"
  using least_distance_optimal [OF assms(2)] positive_nonneg [OF assms(1), of ac]
  by blast

theorem least_distance_shortest_witness:
  "positive_distances tie_graph \<and>
   least_distance tie_graph ''A'' ''D'' ''X'' = Some (Some (200, [''A'', ''D'']), tie_graph) \<and>
   hd [''A'', ''D''] = ''A'' \<and> last [''A'', ''D''] = ''D'' \<and>
   (\<exists>es. walk tie_graph ''X'' ''A'' es ''D'' \<and> [''A'', ''D''] = airports ''A'' es \<and>
      length [''A'', ''D''] = length es + 1 \<and> 200 = total_distance es \<and>
      (\<forall>ws. walk tie_graph ''X'' ''A'' ws ''D'' \<longrightarrow>
         200 \<le> total_distance ws \<and> (total_distance ws = 200 \<longrightarrow> length es \<le> length ws)))"
proof -
  have h: "least_distance tie_graph ''A'' ''D'' ''X'' = Some (Some (200, [''A'', ''D'']), tie_graph)"
    by (simp add: tie_graph_def init_def add_route_def getitem_def
        least_distance_def least_distance_loop.simps heappop_def heappush_def skip_entry_def)
  show ?thesis
    using tie_graph_positive h least_distance_shortest [OF tie_graph_positive h] by blast
qed

text \<open>
  C4. On a graph whose distances are strictly positive, for different start and end airports:
  \<open>fewest_legs\<close> returns \<open>None\<close> exactly when no walk along edges of the requested aircraft
  leads from \<open>s\<close> to \<open>e\<close>, and so does \<open>least_distance\<close>. Neither search returns an empty
  path, and both return \<open>None\<close> when the start has no edge of that aircraft.
\<close>

theorem no_route_none:
  assumes "positive_distances g" and "s \<noteq> e"
  shows "((\<exists>g'. fewest_legs g s e ac = Some (None, g')) \<longleftrightarrow> (\<forall>es. \<not> walk g ac s es e)) \<and>
    ((\<exists>g'. least_distance g s e ac = Some (None, g')) \<longleftrightarrow> (\<forall>es. \<not> walk g ac s es e)) \<and>
    (\<forall>g'. fewest_legs g s e ac \<noteq> Some (Some [], g')) \<and>
    (\<forall>d g'. least_distance g s e ac \<noteq> Some (Some (d, []), g')) \<and>
    (filter (\<lambda>ed. aircraft ed = ac) (adj g s) = [] \<longrightarrow>
       (\<exists>g'. fewest_legs g s e ac = Some (None, g')) \<and>
       (\<exists>g'. least_distance g s e ac = Some (None, g')))"
  using no_route_iff [OF assms(2), of g ac] positive_nonneg [OF assms(1), of ac]
  by blast

theorem no_route_none_witness:
  "positive_distances one_route \<and> ''A'' \<noteq> ''C'' \<and>
   fewest_legs one_route ''A'' ''C'' ''X'' = Some (None, one_route @ [(''B'', [])]) \<and>
   (\<forall>es. \<not> walk one_route ''X'' ''A'' es ''C'') \<and>
   (\<exists>g'. least_distance one_route ''A'' ''C'' ''X'' = Some (None, g'))"
proof -
  have ne: "''A'' \<noteq> ''C''" by simp
  have fl: "fewest_legs one_route ''A'' ''C'' ''X'' = Some (None, one_route @ [(''B'', [])])"
    by (simp add: one_route_eq getitem_def fewest_legs_def fewest_legs_loop.simps)
  note iff = no_route_none [OF one_route_positive ne, of "''X''"]
  from iff fl have no: "\<forall>es. \<not> walk one_route ''X'' ''A'' es ''C''" by blast
  with iff have "\<exists>g'. least_distance one_route ''A'' ''C'' ''X'' = Some (None, g')" by blast
  with one_route_positive ne fl no show ?thesis by blast
qed

end
